theory Spec2Isabelle
  imports Complex_Main
begin

section \<open>Free/busy availability engine of the clippy command-line client\<close>

text \<open>
  The theory embeds the interval logic of \<^verbatim>\<open>src/commands/freebusy.ts\<close>:
  \<^verbatim>\<open>getDateRange\<close>, \<^verbatim>\<open>findFreeSlots\<close>, \<^verbatim>\<open>findBusyFromFreeSlots\<close>,
  \<^verbatim>\<open>parseAvailabilityView\<close> and the duration string of \<^verbatim>\<open>freebusyCommand\<close>.

  Conventions of the embedding.
  \<^item> A JavaScript \<^verbatim>\<open>Date\<close> is its time value, an integer number of milliseconds
    (\<^typ>\<open>int\<close>). Only valid dates are modelled: the strings of the remote service are
    taken as already parsed by \<^verbatim>\<open>new Date(str)\<close>.
  \<^item> The program works in one time zone on local wall-clock time; the time value counts
    from a local midnight and days have 86400000 ms (no daylight-saving change).
  \<^item> A \<^verbatim>\<open>for (const x of xs)\<close> loop that updates local variables is a recursive
    function over the list, passing the variables along.
  \<^item> \<^verbatim>\<open>Array.prototype.sort\<close> is stable, as \<^const>\<open>sort_key\<close> is.
\<close>

subsection \<open>Data model\<close>

text \<open>
  Modelled from the spec: the type \<^verbatim>\<open>FreeBusySlot\<close> is declared in
  \<^verbatim>\<open>lib/owa-client\<close>, which is absent; the spec's slot list is a sequence of
  \<^verbatim>\<open>{start, end, status, subject?}\<close>, and the source reads exactly these fields.
\<close>

record FreeBusySlot =
  slot_start :: int
  slot_end :: int
  slot_status :: string
  slot_subject :: "string option"

text \<open>The anonymous object type \<^verbatim>\<open>{ start: Date; end: Date }\<close>.\<close>

record DateRange =
  range_start :: int
  range_end :: int

text \<open>The \<^verbatim>\<open>{ dateTime: string; timeZone: string }\<close> objects of a \<^verbatim>\<open>ScheduleItem\<close>.\<close>

record DateTimeTz =
  dateTime :: int
  timeZone :: string

record ScheduleItem =
  item_status :: string
  item_start :: DateTimeTz
  item_end :: DateTimeTz
  item_subject :: "string option"

text \<open>The result objects \<^verbatim>\<open>{ startTime: string; endTime: string; status: string }\<close>.\<close>

record BusySummary =
  startTime :: string
  endTime :: string
  status :: string

text \<open>The result objects \<^verbatim>\<open>{ start: Date; end: Date; status: string }\<close>.\<close>

record StatusBlock =
  block_start :: int
  block_end :: int
  block_status :: string

subsection \<open>Dates\<close>

text \<open>\<^verbatim>\<open>d.setHours(h, m, s, ms)\<close>: the same local day, at the given time of day.\<close>

definition setHours :: "int \<Rightarrow> int \<Rightarrow> int \<Rightarrow> int \<Rightarrow> int \<Rightarrow> int" where
  "setHours d h m s ms =
     (d div 86400000) * 86400000 + h * 3600000 + m * 60000 + s * 1000 + ms"

text \<open>Decimal digits, and a number as JavaScript's template strings print it.\<close>

definition digit :: "int \<Rightarrow> char" where
  "digit n = ''0123456789'' ! nat n"

function show_nat :: "nat \<Rightarrow> string" where
  "show_nat n = (if n < 10 then [digit (int n)] else show_nat (n div 10) @ [digit (int (n mod 10))])"
  by pat_completeness auto
termination
  by (relation "measure (\<lambda>n. n)") auto

definition show_int :: "int \<Rightarrow> string" where
  "show_int n = (if n < 0 then ''-'' @ show_nat (nat (- n)) else show_nat (nat n))"

text \<open>
  \<^verbatim>\<open>formatTime\<close>: \<^verbatim>\<open>toLocaleTimeString('en-US', {hour: '2-digit', minute: '2-digit',
  hour12: false})\<close>, the local time of day as \<^verbatim>\<open>HH:MM\<close> on a 24-hour clock. Its
  callers pass \<^verbatim>\<open>d.toISOString()\<close>, which \<^verbatim>\<open>new Date\<close> reads back to the time value of
  \<^verbatim>\<open>d\<close>, so the model takes the time value.
\<close>

definition two_digit :: "int \<Rightarrow> string" where
  "two_digit n = [digit (n div 10 mod 10), digit (n mod 10)]"

definition formatTime :: "int \<Rightarrow> string" where
  "formatTime t = two_digit (t div 3600000 mod 24) @ '':'' @ two_digit (t div 60000 mod 60)"

subsection \<open>getDateRange\<close>

text \<open>
  \<^verbatim>\<open>String.prototype.toLowerCase\<close>, on the ASCII letters. No other character has a
  lower case among the letters of \<^verbatim>\<open>today\<close> and \<^verbatim>\<open>tomorrow\<close>, so the two comparisons
  of \<^verbatim>\<open>getDateRange\<close> are exact.
\<close>

definition lower_char :: "char \<Rightarrow> char" where
  "lower_char c =
     (case map_of (zip ''ABCDEFGHIJKLMNOPQRSTUVWXYZ'' ''abcdefghijklmnopqrstuvwxyz'') c of
        Some l \<Rightarrow> l
      | None \<Rightarrow> c)"

definition toLowerCase :: "string \<Rightarrow> string" where
  "toLowerCase s = map lower_char s"

text \<open>
  \<^verbatim>\<open>getDateRange(day)\<close>. The clock (\<^verbatim>\<open>new Date()\<close>) and the date parser
  (\<^verbatim>\<open>new Date(day)\<close>) belong to the JavaScript runtime and are parameters: \<open>now\<close>
  is the current time value, and \<open>parse day\<close> is \<open>None\<close> when the date is invalid
  (\<^verbatim>\<open>isNaN(targetDate.getTime())\<close>).
\<close>

definition getDateRange :: "int \<Rightarrow> (string \<Rightarrow> int option) \<Rightarrow> string \<Rightarrow> DateRange" where
  "getDateRange now parse day =
     (let targetDate =
            (if toLowerCase day = ''today'' then now
             else if toLowerCase day = ''tomorrow'' then now + 86400000
             else (case parse day of Some t \<Rightarrow> t | None \<Rightarrow> now))
      in \<lparr>range_start = setHours targetDate 0 0 0 0,
          range_end = setHours targetDate 23 59 59 999\<rparr>)"

subsection \<open>findFreeSlots\<close>

text \<open>
  The loop over \<^verbatim>\<open>busySlots\<close>; the state is \<^verbatim>\<open>(freeSlots, current)\<close>.
\<close>

fun free_loop :: "int \<Rightarrow> int \<Rightarrow> DateRange list \<Rightarrow> DateRange list \<times> int \<Rightarrow> DateRange list \<times> int" where
  "free_loop workingStart workingEnd [] st = st"
| "free_loop workingStart workingEnd (busy # rest) (freeSlots, current) =
     (if range_end busy \<le> workingStart \<or> range_start busy \<ge> workingEnd
      then free_loop workingStart workingEnd rest (freeSlots, current)
      else
        (let busyStart = (if range_start busy < workingStart then workingStart else range_start busy);
             busyEnd = (if range_end busy > workingEnd then workingEnd else range_end busy);
             freeSlots' = (if busyStart > current
                           then freeSlots @ [\<lparr>range_start = current, range_end = busyStart\<rparr>]
                           else freeSlots);
             current' = (if busyEnd > current then busyEnd else current)
         in free_loop workingStart workingEnd rest (freeSlots', current')))"

definition findFreeSlots :: "FreeBusySlot list \<Rightarrow> int \<Rightarrow> int \<Rightarrow> int \<Rightarrow> int \<Rightarrow> DateRange list" where
  "findFreeSlots slots dayStart dayEnd workStart workEnd =
     (let workingStart = setHours dayStart workStart 0 0 0;
          workingEnd = setHours dayStart workEnd 0 0 0;
          busySlots = sort_key range_start
            (map (\<lambda>s. \<lparr>range_start = slot_start s, range_end = slot_end s\<rparr>)
               (filter (\<lambda>s. slot_status s \<noteq> ''Free'') slots))
      in case free_loop workingStart workingEnd busySlots ([], workingStart) of
           (freeSlots, current) \<Rightarrow>
             if current < workingEnd
             then freeSlots @ [\<lparr>range_start = current, range_end = workingEnd\<rparr>]
             else freeSlots)"

subsection \<open>The duration string of a free slot\<close>

text \<open>
  Lines 246 to 249 of \<^verbatim>\<open>freebusyCommand\<close>. \<^verbatim>\<open>Math.round\<close> rounds to the nearest
  integer and a half upwards, as \<^const>\<open>round\<close> does; the division is taken as exact
  (the quotient of two time values a day apart is far below the precision of a double).
  \<^verbatim>\<open>Math.floor(duration / 60)\<close> is \<open>duration div 60\<close>, and \<^verbatim>\<open>%\<close> is the remainder
  with the sign of the dividend.
\<close>

definition js_rem :: "int \<Rightarrow> int \<Rightarrow> int" where
  "js_rem a b = (if a < 0 then - ((- a) mod \<bar>b\<bar>) else a mod \<bar>b\<bar>)"

definition durationStr :: "DateRange \<Rightarrow> string" where
  "durationStr slot =
     (let duration = round (real_of_int (range_end slot - range_start slot) / 60000);
          hours = duration div 60;
          mins = js_rem duration 60
      in if hours > 0
         then show_int hours @ ''h'' @ (if mins > 0 then '' '' @ show_int mins @ ''m'' else [])
         else show_int mins @ ''m'')"

subsection \<open>findBusyFromFreeSlots\<close>

text \<open>
  The loop over \<^verbatim>\<open>freeSlots\<close>, with the state \<^verbatim>\<open>(busySlots, current)\<close>; the filtered
  and sorted \<^verbatim>\<open>freeSlots\<close>; and the function.
\<close>

fun busy_loop :: "int \<Rightarrow> int \<Rightarrow> DateRange list \<Rightarrow> BusySummary list \<times> int \<Rightarrow> BusySummary list \<times> int" where
  "busy_loop workStart workEnd [] st = st"
| "busy_loop workStart workEnd (free # rest) (busySlots, current) =
     (let freeStart = (if range_start free < workStart then workStart else range_start free);
          freeEnd = (if range_end free > workEnd then workEnd else range_end free);
          busySlots' = (if freeStart > current
                        then busySlots @ [\<lparr>startTime = formatTime current,
                                            endTime = formatTime freeStart,
                                            status = ''Busy''\<rparr>]
                        else busySlots);
          current' = (if freeEnd > current then freeEnd else current)
      in busy_loop workStart workEnd rest (busySlots', current'))"

definition freeSlotsOf :: "ScheduleItem list \<Rightarrow> int \<Rightarrow> int \<Rightarrow> DateRange list" where
  "freeSlotsOf freeItems workStart workEnd =
     sort_key range_start
       (filter (\<lambda>slot. range_end slot > workStart \<and> range_start slot < workEnd)
          (map (\<lambda>item. \<lparr>range_start = dateTime (item_start item),
                         range_end = dateTime (item_end item)\<rparr>)
             (filter (\<lambda>item. item_status item = ''Free'') freeItems)))"

definition findBusyFromFreeSlots :: "ScheduleItem list \<Rightarrow> int \<Rightarrow> int \<Rightarrow> int \<Rightarrow> BusySummary list" where
  "findBusyFromFreeSlots freeItems dayStart workStartHour workEndHour =
     (let workStart = setHours dayStart workStartHour 0 0 0;
          workEnd = setHours dayStart workEndHour 0 0 0;
          freeSlots = freeSlotsOf freeItems workStart workEnd
      in case busy_loop workStart workEnd freeSlots ([], workStart) of
           (busySlots, current) \<Rightarrow>
             if current < workEnd
             then busySlots @ [\<lparr>startTime = formatTime current,
                                 endTime = formatTime workEnd,
                                 status = ''Busy''\<rparr>]
             else busySlots)"

text \<open>
  The instants behind the strings: the same filter, sort and loop, keeping each gap's two
  time values where \<^verbatim>\<open>findBusyFromFreeSlots\<close> keeps their \<^verbatim>\<open>formatTime\<close>.
\<close>

fun gap_loop :: "int \<Rightarrow> int \<Rightarrow> DateRange list \<Rightarrow> DateRange list \<times> int \<Rightarrow> DateRange list \<times> int" where
  "gap_loop workStart workEnd [] st = st"
| "gap_loop workStart workEnd (free # rest) (gaps, current) =
     (let freeStart = (if range_start free < workStart then workStart else range_start free);
          freeEnd = (if range_end free > workEnd then workEnd else range_end free);
          gaps' = (if freeStart > current
                   then gaps @ [\<lparr>range_start = current, range_end = freeStart\<rparr>]
                   else gaps);
          current' = (if freeEnd > current then freeEnd else current)
      in gap_loop workStart workEnd rest (gaps', current'))"

definition busyGaps :: "ScheduleItem list \<Rightarrow> int \<Rightarrow> int \<Rightarrow> int \<Rightarrow> DateRange list" where
  "busyGaps freeItems dayStart workStartHour workEndHour =
     (let workStart = setHours dayStart workStartHour 0 0 0;
          workEnd = setHours dayStart workEndHour 0 0 0;
          freeSlots = freeSlotsOf freeItems workStart workEnd
      in case gap_loop workStart workEnd freeSlots ([], workStart) of
           (gaps, current) \<Rightarrow>
             if current < workEnd
             then gaps @ [\<lparr>range_start = current, range_end = workEnd\<rparr>]
             else gaps)"

definition busySummary :: "DateRange \<Rightarrow> BusySummary" where
  "busySummary g =
     \<lparr>startTime = formatTime (range_start g), endTime = formatTime (range_end g),
      status = ''Busy''\<rparr>"

subsection \<open>parseAvailabilityView\<close>

definition statusMap :: "(char \<times> string) list" where
  "statusMap =
     [(CHR ''0'', ''Free''),
      (CHR ''1'', ''Tentative''),
      (CHR ''2'', ''Busy''),
      (CHR ''3'', ''Out of Office''),
      (CHR ''4'', ''Working Elsewhere'')]"

text \<open>\<^verbatim>\<open>statusMap[view[i]] || 'Unknown'\<close>\<close>

definition statusOf :: "char \<Rightarrow> string" where
  "statusOf c = (case map_of statusMap c of Some s \<Rightarrow> s | None \<Rightarrow> ''Unknown'')"

text \<open>
  The loop over the buckets, from index \<open>i\<close> on; the state is \<^verbatim>\<open>(blocks, current)\<close>,
  with \<open>None\<close> for \<^verbatim>\<open>null\<close>. An open block is in no list until it is pushed, so
  the assignment to \<^verbatim>\<open>current.end\<close> changes \<^verbatim>\<open>current\<close> only.
\<close>

fun parse_loop :: "int \<Rightarrow> int \<Rightarrow> nat \<Rightarrow> string \<Rightarrow> StatusBlock list \<times> StatusBlock option
    \<Rightarrow> StatusBlock list \<times> StatusBlock option" where
  "parse_loop startDate intervalMinutes i [] st = st"
| "parse_loop startDate intervalMinutes i (c # view) (blocks, current) =
     (let time = startDate + int i * intervalMinutes * 60000;
          status = statusOf c
      in if status = ''Free''
         then (case current of
                 Some b \<Rightarrow> parse_loop startDate intervalMinutes (Suc i) view (blocks @ [b], None)
               | None \<Rightarrow> parse_loop startDate intervalMinutes (Suc i) view (blocks, None))
         else (case current of
                 None \<Rightarrow>
                   parse_loop startDate intervalMinutes (Suc i) view
                     (blocks,
                      Some \<lparr>block_start = time, block_end = time + intervalMinutes * 60000,
                            block_status = status\<rparr>)
               | Some b \<Rightarrow>
                   if block_status b \<noteq> status
                   then parse_loop startDate intervalMinutes (Suc i) view
                          (blocks @ [b],
                           Some \<lparr>block_start = time, block_end = time + intervalMinutes * 60000,
                                 block_status = status\<rparr>)
                   else parse_loop startDate intervalMinutes (Suc i) view
                          (blocks, Some (b\<lparr>block_end := time + intervalMinutes * 60000\<rparr>))))"

definition parseAvailabilityView :: "string \<Rightarrow> int \<Rightarrow> int \<Rightarrow> StatusBlock list" where
  "parseAvailabilityView view startDate intervalMinutes =
     (case parse_loop startDate intervalMinutes 0 view ([], None) of
        (blocks, current) \<Rightarrow>
          (case current of Some b \<Rightarrow> blocks @ [b] | None \<Rightarrow> blocks))"

subsection \<open>The specification's vocabulary\<close>

text \<open>
  A half-open interval \<open>[start, end)\<close> as the set of its instants, and the time a list of
  intervals covers.
\<close>

definition points :: "DateRange \<Rightarrow> int set" where
  "points r = {range_start r ..< range_end r}"

definition cover :: "DateRange list \<Rightarrow> int set" where
  "cover rs = \<Union> (points ` set rs)"

text \<open>The work window \<open>[day@workStart, day@workEnd)\<close>.\<close>

definition workWindow :: "int \<Rightarrow> int \<Rightarrow> int \<Rightarrow> int set" where
  "workWindow dayStart workStart workEnd =
     {setHours dayStart workStart 0 0 0 ..< setHours dayStart workEnd 0 0 0}"

text \<open>The time covered by the slots whose status is not \<^verbatim>\<open>Free\<close>.\<close>

definition busyTime :: "FreeBusySlot list \<Rightarrow> int set" where
  "busyTime slots =
     \<Union> ((\<lambda>s. {slot_start s ..< slot_end s}) ` set (filter (\<lambda>s. slot_status s \<noteq> ''Free'') slots))"

text \<open>The time covered by the schedule items whose status is \<^verbatim>\<open>Free\<close>.\<close>

definition freeTime :: "ScheduleItem list \<Rightarrow> int set" where
  "freeTime items =
     \<Union> ((\<lambda>i. {dateTime (item_start i) ..< dateTime (item_end i)}) `
          set (filter (\<lambda>i. item_status i = ''Free'') items))"

text \<open>Section 4.1 of the specification: \<open>overlaps\<close>, \<open>clamp\<close>, \<open>sortByStart\<close>.\<close>

definition overlaps :: "DateRange \<Rightarrow> DateRange \<Rightarrow> bool" where
  "overlaps a b = (range_start a < range_end b \<and> range_start b < range_end a)"

definition clamp :: "DateRange \<Rightarrow> DateRange \<Rightarrow> DateRange option" where
  "clamp interval bound =
     (let clamped = \<lparr>range_start = max (range_start interval) (range_start bound),
                      range_end = min (range_end interval) (range_end bound)\<rparr>
      in if range_start clamped \<ge> range_end clamped then None else Some clamped)"

definition sortByStart :: "DateRange list \<Rightarrow> DateRange list" where
  "sortByStart rs = sort_key range_start rs"

text \<open>
  Section 4.3, steps 3 and 4: the cursor sweep over the clamped, sorted intervals, and the
  Gap Inverter of steps 1 to 4.
\<close>

fun sweep :: "int \<Rightarrow> int \<Rightarrow> DateRange list \<Rightarrow> DateRange list" where
  "sweep cursor windowEnd [] =
     (if cursor < windowEnd then [\<lparr>range_start = cursor, range_end = windowEnd\<rparr>] else [])"
| "sweep cursor windowEnd (interval # rest) =
     (if range_start interval > cursor
      then [\<lparr>range_start = cursor, range_end = range_start interval\<rparr>]
      else []) @
     sweep (max cursor (range_end interval)) windowEnd rest"

definition gapInverter :: "DateRange list \<Rightarrow> DateRange \<Rightarrow> DateRange list" where
  "gapInverter intervals window =
     sweep (range_start window) (range_end window)
       (sortByStart (List.map_filter (\<lambda>i. clamp i window) intervals))"

subsection \<open>Auxiliary notions of the proofs\<close>

text \<open>The clamping both loops do on an interval, and the push after either loop.\<close>

definition clip :: "int \<Rightarrow> int \<Rightarrow> DateRange \<Rightarrow> DateRange" where
  "clip lo hi r =
     \<lparr>range_start = (if range_start r < lo then lo else range_start r),
      range_end = (if range_end r > hi then hi else range_end r)\<rparr>"

definition finish :: "int \<Rightarrow> DateRange list \<times> int \<Rightarrow> DateRange list" where
  "finish hi st =
     (case st of (rs, current) \<Rightarrow>
        if current < hi then rs @ [\<lparr>range_start = current, range_end = hi\<rparr>] else rs)"

text \<open>The sorted \<^verbatim>\<open>busySlots\<close> of \<^verbatim>\<open>findFreeSlots\<close>.\<close>

definition busySlotsOf :: "FreeBusySlot list \<Rightarrow> DateRange list" where
  "busySlotsOf slots =
     sort_key range_start
       (map (\<lambda>s. \<lparr>range_start = slot_start s, range_end = slot_end s\<rparr>)
          (filter (\<lambda>s. slot_status s \<noteq> ''Free'') slots))"

text \<open>
  A list of intervals that are non-empty, ascending and pairwise separated by a gap; and the
  list of the maximal intervals of a set \<open>S\<close> of instants, in ascending order: it covers
  exactly \<open>S\<close>, no interval is empty or can be extended at either end within \<open>S\<close>, no
  two intervals overlap, and the starts ascend.
\<close>

definition chain :: "DateRange list \<Rightarrow> bool" where
  "chain rs \<longleftrightarrow>
     sorted_wrt (\<lambda>a b. range_end a < range_start b) rs \<and>
     (\<forall>r\<in>set rs. range_start r < range_end r)"

definition maximalIntervalsOf :: "int set \<Rightarrow> DateRange list \<Rightarrow> bool" where
  "maximalIntervalsOf S rs \<longleftrightarrow>
     cover rs = S \<and>
     (\<forall>r\<in>set rs. range_start r < range_end r \<and> range_start r - 1 \<notin> S \<and> range_end r \<notin> S) \<and>
     sorted_wrt (\<lambda>a b. \<not> overlaps a b) rs \<and>
     sorted (map range_start rs)"

text \<open>The interval of a schedule item, as \<^verbatim>\<open>findBusyFromFreeSlots\<close> reads it.\<close>

definition intervalOf :: "ScheduleItem \<Rightarrow> DateRange" where
  "intervalOf item =
     \<lparr>range_start = dateTime (item_start item), range_end = dateTime (item_end item)\<rparr>"

text \<open>
  Section 4.2 of the specification, the Status Decoder, stated on runs: the buckets'
  statuses are grouped into maximal runs of equal status (run-length encoding), each run
  is placed at the index of its first bucket, and a run of \<^verbatim>\<open>Free\<close> gives no block.
\<close>

fun runLengths :: "'a list \<Rightarrow> ('a \<times> nat) list" where
  "runLengths [] = []"
| "runLengths (x # xs) =
     (case runLengths xs of
        [] \<Rightarrow> [(x, 1)]
      | (y, n) # rs \<Rightarrow> if x = y then (y, Suc n) # rs else (x, 1) # (y, n) # rs)"

fun placeRuns :: "int \<Rightarrow> int \<Rightarrow> nat \<Rightarrow> (string \<times> nat) list \<Rightarrow> StatusBlock list" where
  "placeRuns startDate bucketMinutes i [] = []"
| "placeRuns startDate bucketMinutes i ((st, n) # rs) =
     (if st = ''Free'' then []
      else [\<lparr>block_start = startDate + int i * bucketMinutes * 60000,
             block_end = startDate + int (i + n) * bucketMinutes * 60000,
             block_status = st\<rparr>]) @
     placeRuns startDate bucketMinutes (i + n) rs"

definition decodeAvailabilityView :: "string \<Rightarrow> int \<Rightarrow> int \<Rightarrow> StatusBlock list" where
  "decodeAvailabilityView code windowStart bucketMinutes =
     placeRuns windowStart bucketMinutes 0 (runLengths (map statusOf code))"

text \<open>The push of the open block after the loop of \<^verbatim>\<open>parseAvailabilityView\<close>.\<close>

definition flush :: "StatusBlock list \<times> StatusBlock option \<Rightarrow> StatusBlock list" where
  "flush st = (case st of (blocks, current) \<Rightarrow>
      (case current of Some b \<Rightarrow> blocks @ [b] | None \<Rightarrow> blocks))"

text \<open>
  Section 4.5 of the specification: the duration in whole minutes,
  \<^verbatim>\<open>round((end - start) / 60000)\<close>, as the terms \<^verbatim>\<open>{h}h\<close> and \<^verbatim>\<open>{m}m\<close> separated by
  a space, a term left out when it is zero, and \<^verbatim>\<open>0m\<close> when both are.
\<close>

fun joinWords :: "string list \<Rightarrow> string" where
  "joinWords [] = []"
| "joinWords [w] = w"
| "joinWords (w # ws) = w @ '' '' @ joinWords ws"

definition durationSpec :: "DateRange \<Rightarrow> string" where
  "durationSpec slot =
     (let minutes = round (real_of_int (range_end slot - range_start slot) / 60000);
          h = minutes div 60;
          m = minutes mod 60;
          terms = (if h = 0 then [] else [show_int h @ ''h'']) @
                  (if m = 0 then [] else [show_int m @ ''m''])
      in if terms = [] then ''0m'' else joinWords terms)"

text \<open>
  A list of intervals whose starts ascend and of which no two overlap; and a list of
  intervals that tiles a set \<open>W\<close> of instants: it covers exactly \<open>W\<close> and no two of its
  intervals overlap.
\<close>

definition sortedDisjoint :: "DateRange list \<Rightarrow> bool" where
  "sortedDisjoint rs \<longleftrightarrow>
     sorted (map range_start rs) \<and> sorted_wrt (\<lambda>a b. \<not> overlaps a b) rs"

definition tiles :: "int set \<Rightarrow> DateRange list \<Rightarrow> bool" where
  "tiles W rs \<longleftrightarrow> cover rs = W \<and> sorted_wrt (\<lambda>a b. \<not> overlaps a b) rs"

text \<open>The interval of a status block and of a slot.\<close>

definition blockRange :: "StatusBlock \<Rightarrow> DateRange" where
  "blockRange b = \<lparr>range_start = block_start b, range_end = block_end b\<rparr>"

definition slotRange :: "FreeBusySlot \<Rightarrow> DateRange" where
  "slotRange s = \<lparr>range_start = slot_start s, range_end = slot_end s\<rparr>"

text \<open>
  A free slot of \<^verbatim>\<open>findFreeSlots\<close> as a schedule item with the status \<^verbatim>\<open>Free\<close>, to
  pass the result of one function to the other. The time zone is never read.
\<close>

definition asFreeItem :: "DateRange \<Rightarrow> ScheduleItem" where
  "asFreeItem r =
     \<lparr>item_status = ''Free'',
      item_start = \<lparr>dateTime = range_start r, timeZone = ''UTC''\<rparr>,
      item_end = \<lparr>dateTime = range_end r, timeZone = ''UTC''\<rparr>,
      item_subject = None\<rparr>"

text \<open>
  The interval that a busy summary of \<^verbatim>\<open>findBusyFromFreeSlots\<close> denotes: its two
  \<^verbatim>\<open>HH:MM\<close> strings read as times of the day of \<^verbatim>\<open>dayStart\<close>.
\<close>

definition digitValue :: "char \<Rightarrow> int" where
  "digitValue c =
     (case map_of (zip ''0123456789'' [0, 1, 2, 3, 4, 5, 6, 7, 8, 9]) c of
        Some v \<Rightarrow> v
      | None \<Rightarrow> 0)"

definition minutesOf :: "string \<Rightarrow> int" where
  "minutesOf s =
     (if length s = 5
      then (digitValue (s ! 0) * 10 + digitValue (s ! 1)) * 60 +
           digitValue (s ! 3) * 10 + digitValue (s ! 4)
      else 0)"

definition summaryRange :: "int \<Rightarrow> BusySummary \<Rightarrow> DateRange" where
  "summaryRange dayStart b =
     \<lparr>range_start = setHours dayStart 0 0 0 0 + minutesOf (startTime b) * 60000,
      range_end = setHours dayStart 0 0 0 0 + minutesOf (endTime b) * 60000\<rparr>"

text \<open>
  Conditions on the input: no interval ends before it starts (of the slots that are not
  \<^verbatim>\<open>Free\<close>, of the items that are \<^verbatim>\<open>Free\<close>); the intervals start and end on whole
  minutes; the slots that are not \<^verbatim>\<open>Free\<close> lie within the work window.
\<close>

definition properSlots :: "FreeBusySlot list \<Rightarrow> bool" where
  "properSlots slots \<longleftrightarrow>
     (\<forall>s\<in>set slots. slot_status s \<noteq> ''Free'' \<longrightarrow> slot_start s \<le> slot_end s)"

definition properItems :: "ScheduleItem list \<Rightarrow> bool" where
  "properItems items \<longleftrightarrow>
     (\<forall>i\<in>set items. item_status i = ''Free'' \<longrightarrow> dateTime (item_start i) \<le> dateTime (item_end i))"

definition wholeMinuteSlots :: "FreeBusySlot list \<Rightarrow> bool" where
  "wholeMinuteSlots slots \<longleftrightarrow>
     (\<forall>s\<in>set slots. slot_status s \<noteq> ''Free'' \<longrightarrow> 60000 dvd slot_start s \<and> 60000 dvd slot_end s)"

definition wholeMinuteItems :: "ScheduleItem list \<Rightarrow> bool" where
  "wholeMinuteItems items \<longleftrightarrow>
     (\<forall>i\<in>set items. item_status i = ''Free'' \<longrightarrow>
        60000 dvd dateTime (item_start i) \<and> 60000 dvd dateTime (item_end i))"

definition withinWindow :: "FreeBusySlot list \<Rightarrow> int \<Rightarrow> int \<Rightarrow> int \<Rightarrow> bool" where
  "withinWindow slots dayStart workStart workEnd \<longleftrightarrow>
     (\<forall>s\<in>set slots. slot_status s \<noteq> ''Free'' \<longrightarrow>
        setHours dayStart workStart 0 0 0 \<le> slot_start s \<and>
        slot_end s \<le> setHours dayStart workEnd 0 0 0)"

text \<open>An interval with both ends rounded down to the minute, as \<^verbatim>\<open>formatTime\<close> prints them.\<close>

definition floorMinute :: "DateRange \<Rightarrow> DateRange" where
  "floorMinute g =
     \<lparr>range_start = range_start g div 60000 * 60000,
      range_end = range_end g div 60000 * 60000\<rparr>"

section \<open>Properties\<close>

subsection \<open>Both loops are the cursor sweep\<close>

lemma free_loop_sweep:
  "finish we (free_loop ws we bs (acc, cur)) =
     acc @ sweep cur we
       (map (clip ws we) (filter (\<lambda>b. \<not> (range_end b \<le> ws \<or> range_start b \<ge> we)) bs))"
proof (induction bs arbitrary: acc cur)
  case Nil
  show ?case by (simp add: finish_def)
next
  case (Cons b bs)
  show ?case
    by (simp add: Cons.IH clip_def Let_def max_def)
qed

lemma gap_loop_sweep:
  "finish we (gap_loop ws we fs (acc, cur)) = acc @ sweep cur we (map (clip ws we) fs)"
proof (induction fs arbitrary: acc cur)
  case Nil
  show ?case by (simp add: finish_def)
next
  case (Cons f fs)
  show ?case
    by (simp add: Cons.IH clip_def Let_def max_def)
qed

lemma busy_loop_gap_loop:
  "busy_loop ws we fs (map busySummary acc, cur) =
     (map busySummary (fst (gap_loop ws we fs (acc, cur))), snd (gap_loop ws we fs (acc, cur)))"
proof (induction fs arbitrary: acc cur)
  case Nil
  show ?case by simp
next
  case (Cons f fs)
  have push: "map busySummary acc @
        [\<lparr>startTime = formatTime c, endTime = formatTime s, status = ''Busy''\<rparr>] =
      map busySummary (acc @ [\<lparr>range_start = c, range_end = s\<rparr>])" for c s
    by (simp add: busySummary_def)
  show ?case
    by (simp add: Let_def push Cons.IH del: map_append)
qed

lemma findBusyFromFreeSlots_busyGaps:
  "findBusyFromFreeSlots items d h1 h2 = map busySummary (busyGaps items d h1 h2)"
proof -
  have "busy_loop ws we fs ([], cur) =
      (map busySummary (fst (gap_loop ws we fs ([], cur))), snd (gap_loop ws we fs ([], cur)))"
    for ws we fs cur
    using busy_loop_gap_loop [of ws we fs "[]" cur] by simp
  then show ?thesis
    by (simp add: findBusyFromFreeSlots_def busyGaps_def Let_def busySummary_def
        split: prod.splits)
qed

lemma findFreeSlots_sweep:
  "findFreeSlots slots d dayEnd h1 h2 =
     sweep (setHours d h1 0 0 0) (setHours d h2 0 0 0)
       (map (clip (setHours d h1 0 0 0) (setHours d h2 0 0 0))
          (filter (\<lambda>b. \<not> (range_end b \<le> setHours d h1 0 0 0 \<or>
                           range_start b \<ge> setHours d h2 0 0 0))
             (busySlotsOf slots)))"
  using free_loop_sweep [of "setHours d h2 0 0 0" "setHours d h1 0 0 0" "busySlotsOf slots"
      "[]" "setHours d h1 0 0 0"]
  by (simp add: findFreeSlots_def finish_def busySlotsOf_def Let_def)

lemma busyGaps_sweep:
  "busyGaps items d h1 h2 =
     sweep (setHours d h1 0 0 0) (setHours d h2 0 0 0)
       (map (clip (setHours d h1 0 0 0) (setHours d h2 0 0 0))
          (freeSlotsOf items (setHours d h1 0 0 0) (setHours d h2 0 0 0)))"
  using gap_loop_sweep [of "setHours d h2 0 0 0" "setHours d h1 0 0 0" _ "[]"
      "setHours d h1 0 0 0"]
  by (simp add: busyGaps_def finish_def Let_def)

subsection \<open>Degenerate and inverted work windows\<close>

lemma sweep_nil:
  "we \<le> cur \<Longrightarrow> \<forall>x\<in>set xs. range_start x \<le> cur \<Longrightarrow> sweep cur we xs = []"
proof (induction xs arbitrary: cur)
  case Nil
  then show ?case by simp
next
  case (Cons x xs)
  have "sweep (max cur (range_end x)) we xs = []"
    using Cons.prems by (intro Cons.IH) (auto simp: max_def)
  then show ?case using Cons.prems by simp
qed

lemma setHours_mono: "h2 \<le> h1 \<Longrightarrow> setHours d h2 0 0 0 \<le> setHours d h1 0 0 0"
  by (simp add: setHours_def)

lemma findFreeSlots_inverted:
  assumes "h2 \<le> h1"
  shows "findFreeSlots slots d dayEnd h1 h2 = []"
  unfolding findFreeSlots_sweep
  using setHours_mono [OF assms, of d]
  by (intro sweep_nil) (auto simp: clip_def)

lemma busyGaps_inverted:
  assumes "h2 \<le> h1"
  shows "busyGaps items d h1 h2 = []"
  unfolding busyGaps_sweep
  using setHours_mono [OF assms, of d]
  by (intro sweep_nil) (auto simp: clip_def freeSlotsOf_def)

text \<open>
  Claim C9. When the work window is degenerate or inverted (the start hour is greater than
  or equal to the end hour), \<^verbatim>\<open>findFreeSlots\<close> and \<^verbatim>\<open>findBusyFromFreeSlots\<close> both
  return the empty list, for every list of slots and of schedule items. Both functions are
  total, so no error is raised.
\<close>

theorem degenerate_window_yields_nothing:
  assumes "workEnd \<le> workStart"
  shows "findFreeSlots slots dayStart dayEnd workStart workEnd = [] \<and>
         findBusyFromFreeSlots freeItems dayStart workStart workEnd = []"
  using assms
  by (simp add: findFreeSlots_inverted findBusyFromFreeSlots_busyGaps busyGaps_inverted)

theorem degenerate_window_yields_nothing_witness:
  "findFreeSlots
     [\<lparr>slot_start = 36000000, slot_end = 37800000, slot_status = ''Busy'',
       slot_subject = None\<rparr>] 0 86399999 17 9 = [] \<and>
   findBusyFromFreeSlots
     [\<lparr>item_status = ''Free'',
       item_start = \<lparr>dateTime = 32400000, timeZone = ''UTC''\<rparr>,
       item_end = \<lparr>dateTime = 43200000, timeZone = ''UTC''\<rparr>,
       item_subject = None\<rparr>] 0 17 9 = []"
proof -
  have h: "(9::int) \<le> 17" by simp
  show ?thesis
    by (rule degenerate_window_yields_nothing [OF h])
qed

subsection \<open>The status filters\<close>

text \<open>
  Claim C10. \<^verbatim>\<open>findBusyFromFreeSlots\<close> filters by status itself: two lists with the same
  subsequence of items whose status is exactly \<^verbatim>\<open>Free\<close> give the same result. Dually
  \<^verbatim>\<open>findFreeSlots\<close> depends only on the subsequence of slots whose status is not
  \<^verbatim>\<open>Free\<close>.
\<close>

theorem status_filter_noninterference:
  "(filter (\<lambda>i. item_status i = ''Free'') xs = filter (\<lambda>i. item_status i = ''Free'') ys \<longrightarrow>
      findBusyFromFreeSlots xs dayStart workStart workEnd =
      findBusyFromFreeSlots ys dayStart workStart workEnd) \<and>
   (filter (\<lambda>s. slot_status s \<noteq> ''Free'') slots = filter (\<lambda>s. slot_status s \<noteq> ''Free'') slots' \<longrightarrow>
      findFreeSlots slots dayStart dayEnd workStart workEnd =
      findFreeSlots slots' dayStart dayEnd workStart workEnd)"
  by (simp add: findBusyFromFreeSlots_def freeSlotsOf_def findFreeSlots_def)

theorem status_filter_noninterference_witness:
  "findBusyFromFreeSlots
     [\<lparr>item_status = ''Busy'',
       item_start = \<lparr>dateTime = 36000000, timeZone = ''UTC''\<rparr>,
       item_end = \<lparr>dateTime = 39600000, timeZone = ''UTC''\<rparr>,
       item_subject = None\<rparr>,
      \<lparr>item_status = ''Free'',
       item_start = \<lparr>dateTime = 32400000, timeZone = ''UTC''\<rparr>,
       item_end = \<lparr>dateTime = 43200000, timeZone = ''UTC''\<rparr>,
       item_subject = None\<rparr>] 0 9 17 =
   findBusyFromFreeSlots
     [\<lparr>item_status = ''Free'',
       item_start = \<lparr>dateTime = 32400000, timeZone = ''UTC''\<rparr>,
       item_end = \<lparr>dateTime = 43200000, timeZone = ''UTC''\<rparr>,
       item_subject = None\<rparr>] 0 9 17 \<and>
   findFreeSlots
     [\<lparr>slot_start = 0, slot_end = 86400000, slot_status = ''Free'', slot_subject = None\<rparr>,
      \<lparr>slot_start = 36000000, slot_end = 37800000, slot_status = ''Busy'',
       slot_subject = None\<rparr>] 0 86399999 9 17 =
   findFreeSlots
     [\<lparr>slot_start = 36000000, slot_end = 37800000, slot_status = ''Busy'',
       slot_subject = None\<rparr>] 0 86399999 9 17"
proof -
  have a: "filter (\<lambda>i. item_status i = ''Free'')
      [\<lparr>item_status = ''Busy'',
        item_start = \<lparr>dateTime = 36000000, timeZone = ''UTC''\<rparr>,
        item_end = \<lparr>dateTime = 39600000, timeZone = ''UTC''\<rparr>,
        item_subject = None\<rparr>,
       \<lparr>item_status = ''Free'',
        item_start = \<lparr>dateTime = 32400000, timeZone = ''UTC''\<rparr>,
        item_end = \<lparr>dateTime = 43200000, timeZone = ''UTC''\<rparr>,
        item_subject = None\<rparr>] =
     filter (\<lambda>i. item_status i = ''Free'')
      [\<lparr>item_status = ''Free'',
        item_start = \<lparr>dateTime = 32400000, timeZone = ''UTC''\<rparr>,
        item_end = \<lparr>dateTime = 43200000, timeZone = ''UTC''\<rparr>,
        item_subject = None\<rparr>]"
    by simp
  have b: "filter (\<lambda>s. slot_status s \<noteq> ''Free'')
      [\<lparr>slot_start = 0, slot_end = 86400000, slot_status = ''Free'', slot_subject = None\<rparr>,
       \<lparr>slot_start = 36000000, slot_end = 37800000, slot_status = ''Busy'',
        slot_subject = None\<rparr>] =
     filter (\<lambda>s. slot_status s \<noteq> ''Free'')
      [\<lparr>slot_start = 36000000, slot_end = 37800000, slot_status = ''Busy'',
        slot_subject = None\<rparr>]"
    by simp
  from a b show ?thesis
    using status_filter_noninterference by blast
qed

subsection \<open>getDateRange\<close>

text \<open>
  Claim C8. When the day argument is neither \<^verbatim>\<open>today\<close> nor \<^verbatim>\<open>tomorrow\<close> (in any
  letter case) and is not a valid date, \<^verbatim>\<open>getDateRange\<close> returns the range of the
  current day, as it does for \<^verbatim>\<open>today\<close>: from 00:00:00.000, the start of the day of
  \<open>now\<close>, to 23:59:59.999, which is 86399999 ms later.
\<close>

theorem getDateRange_invalid_day_is_today:
  assumes "toLowerCase day \<noteq> ''today''" and "toLowerCase day \<noteq> ''tomorrow''"
    and "parse day = None"
  shows "getDateRange now parse day = getDateRange now parse ''today'' \<and>
         range_start (getDateRange now parse day) = setHours now 0 0 0 0 \<and>
         range_end (getDateRange now parse day) = setHours now 23 59 59 999 \<and>
         range_start (getDateRange now parse day) = now - now mod 86400000 \<and>
         range_end (getDateRange now parse day) =
           range_start (getDateRange now parse day) + 86399999"
proof -
  have today: "toLowerCase ''today'' = ''today''"
    by (simp add: toLowerCase_def lower_char_def)
  have floor_day: "now div 86400000 * 86400000 = now - now mod 86400000"
    by (simp add: minus_mod_eq_div_mult)
  show ?thesis
    using assms by (simp add: getDateRange_def today setHours_def floor_day)
qed

theorem getDateRange_invalid_day_is_today_witness:
  "getDateRange 100000000 (\<lambda>_. None) ''next week'' =
     \<lparr>range_start = 86400000, range_end = 172799999\<rparr>"
proof -
  have a: "toLowerCase ''next week'' \<noteq> ''today''"
    by (simp add: toLowerCase_def lower_char_def)
  have b: "toLowerCase ''next week'' \<noteq> ''tomorrow''"
    by (simp add: toLowerCase_def lower_char_def)
  have c: "(\<lambda>_::string. None :: int option) ''next week'' = None"
    by simp
  have "range_start (getDateRange 100000000 (\<lambda>_. None) ''next week'') = 86400000 \<and>
        range_end (getDateRange 100000000 (\<lambda>_. None) ''next week'') = 172799999"
    using getDateRange_invalid_day_is_today [OF a b c, of 100000000, THEN conjunct2]
    by (simp add: setHours_def)
  then show ?thesis
    by (cases "getDateRange 100000000 (\<lambda>_. None) ''next week''") simp
qed

subsection \<open>What the sweep covers\<close>

lemma points_clip: "points (clip ws we r) = points r \<inter> {ws..<we}"
  by (auto simp: points_def clip_def)

lemma cover_Nil: "cover [] = {}"
  by (simp add: cover_def)

lemma cover_Cons: "cover (r # rs) = points r \<union> cover rs"
  by (simp add: cover_def)

lemma cover_append: "cover (rs @ qs) = cover rs \<union> cover qs"
  by (auto simp: cover_def)

lemma cover_set_cong: "set rs = set qs \<Longrightarrow> cover rs = cover qs"
  by (simp add: cover_def)

lemma cover_clipped:
  "cover (map (clip ws we) (filter (\<lambda>b. \<not> (range_end b \<le> ws \<or> range_start b \<ge> we)) ys)) =
     cover ys \<inter> {ws..<we}"
proof (induction ys)
  case Nil
  show ?case by (simp add: cover_Nil)
next
  case (Cons y ys)
  have "points y \<inter> {ws..<we} = {}" if "range_end y \<le> ws \<or> we \<le> range_start y"
    using that by (auto simp: points_def)
  then show ?case
    using Cons.IH by (auto simp: cover_Cons points_clip)
qed

lemma cover_map_clip: "cover (map (clip ws we) ys) = cover ys \<inter> {ws..<we}"
  by (induction ys) (auto simp: cover_Nil cover_Cons points_clip)

lemma sweep_cover:
  "sorted (map range_start xs) \<Longrightarrow> \<forall>x\<in>set xs. range_start x \<le> we \<Longrightarrow>
     cover (sweep cur we xs) = {cur..<we} - cover xs"
proof (induction xs arbitrary: cur)
  case Nil
  show ?case by (auto simp: cover_Nil cover_Cons points_def)
next
  case (Cons x xs)
  let ?c = "max cur (range_end x)"
  have IH: "cover (sweep ?c we xs) = {?c..<we} - cover xs"
    using Cons.prems by (intro Cons.IH) auto
  have later: "t \<notin> cover xs" if "t < range_start x" for t
    using that Cons.prems(1) by (fastforce simp: cover_def points_def)
  have le: "range_start x \<le> we"
    using Cons.prems(2) by simp
  have eq: "cover (sweep cur we (x # xs)) =
      (if range_start x > cur then {cur..<range_start x} else {}) \<union> ({?c..<we} - cover xs)"
    by (simp add: cover_append cover_Cons cover_Nil IH points_def)
  show ?case
    unfolding eq
  proof (rule set_eqI)
    fix t
    show "t \<in> (if range_start x > cur then {cur..<range_start x} else {}) \<union> ({?c..<we} - cover xs)
        \<longleftrightarrow> t \<in> {cur..<we} - cover (x # xs)"
      using later [of t] le
      by (auto simp: cover_Cons points_def max_def split: if_splits)
  qed
qed

lemma sweep_bounds:
  "r \<in> set (sweep cur we xs) \<Longrightarrow> cur \<le> range_start r \<and> range_start r < range_end r"
proof (induction xs arbitrary: cur)
  case Nil
  then show ?case by (auto split: if_splits)
next
  case (Cons x xs)
  from Cons.prems consider
    (push) "range_start x > cur" "r = \<lparr>range_start = cur, range_end = range_start x\<rparr>"
    | (rest) "r \<in> set (sweep (max cur (range_end x)) we xs)"
    by (auto split: if_splits)
  then show ?case
  proof cases
    case push
    then show ?thesis by simp
  next
    case rest
    from Cons.IH [OF rest] show ?thesis by simp
  qed
qed

lemma sweep_separated:
  "sorted (map range_start xs) \<Longrightarrow> \<forall>x\<in>set xs. range_start x < range_end x \<Longrightarrow>
     sorted_wrt (\<lambda>a b. range_end a < range_start b) (sweep cur we xs)"
proof (induction xs arbitrary: cur)
  case Nil
  show ?case by simp
next
  case (Cons x xs)
  have IH: "sorted_wrt (\<lambda>a b. range_end a < range_start b) (sweep (max cur (range_end x)) we xs)"
    using Cons.prems by (intro Cons.IH) auto
  have "range_start x < range_start b" if "b \<in> set (sweep (max cur (range_end x)) we xs)" for b
    using sweep_bounds [OF that] Cons.prems(2) by simp
  then show ?case
    using IH by simp
qed

lemma sweep_ordered:
  "sorted (map range_start xs) \<Longrightarrow> \<forall>x\<in>set xs. range_start x \<le> range_end x \<Longrightarrow>
     sorted_wrt (\<lambda>a b. range_end a \<le> range_start b) (sweep cur we xs)"
proof (induction xs arbitrary: cur)
  case Nil
  show ?case by simp
next
  case (Cons x xs)
  have IH: "sorted_wrt (\<lambda>a b. range_end a \<le> range_start b) (sweep (max cur (range_end x)) we xs)"
    using Cons.prems by (intro Cons.IH) auto
  have "range_start x \<le> range_start b" if "b \<in> set (sweep (max cur (range_end x)) we xs)" for b
    using sweep_bounds [OF that] Cons.prems(2) by simp
  then show ?case
    using IH by simp
qed

lemma sorted_map_clip:
  "sorted (map range_start ys) \<Longrightarrow> sorted (map range_start (map (clip ws we) ys))"
  by (induction ys) (auto simp: clip_def)

lemma sorted_filter_starts:
  "sorted (map range_start ys) \<Longrightarrow> sorted (map range_start (filter P ys))"
  by (induction ys) auto

lemma sorted_busySlotsOf: "sorted (map range_start (busySlotsOf slots))"
  by (simp add: busySlotsOf_def)

lemma sorted_freeSlotsOf: "sorted (map range_start (freeSlotsOf items ws we))"
  by (simp add: freeSlotsOf_def)

lemma cover_busySlotsOf: "cover (busySlotsOf slots) = busyTime slots"
  by (simp add: cover_def busySlotsOf_def busyTime_def points_def image_image)

lemma cover_freeSlotsOf: "cover (freeSlotsOf items ws we) \<inter> {ws..<we} = freeTime items \<inter> {ws..<we}"
  by (auto simp: cover_def freeSlotsOf_def freeTime_def points_def)



lemma findFreeSlots_cover:
  "cover (findFreeSlots slots d dayEnd h1 h2) = workWindow d h1 h2 - busyTime slots"
proof -
  define ws where "ws = setHours d h1 0 0 0"
  define we where "we = setHours d h2 0 0 0"
  define xs where "xs = map (clip ws we)
          (filter (\<lambda>b. \<not> (range_end b \<le> ws \<or> range_start b \<ge> we)) (busySlotsOf slots))"
  have out: "findFreeSlots slots d dayEnd h1 h2 = sweep ws we xs"
    by (simp add: findFreeSlots_sweep ws_def we_def xs_def)
  have cov: "cover xs = busyTime slots \<inter> {ws..<we}"
    unfolding xs_def cover_clipped cover_busySlotsOf by (rule refl)
  show ?thesis
  proof (cases "ws \<le> we")
    case True
    have "sorted (map range_start xs)"
      unfolding xs_def by (intro sorted_map_clip sorted_filter_starts sorted_busySlotsOf)
    moreover have "\<forall>x\<in>set xs. range_start x \<le> we"
      using True by (auto simp: xs_def clip_def)
    ultimately have "cover (sweep ws we xs) = {ws..<we} - cover xs"
      by (rule sweep_cover)
    then show ?thesis
      unfolding out workWindow_def cov ws_def [symmetric] we_def [symmetric] by blast
  next
    case False
    then have "sweep ws we xs = []"
      by (intro sweep_nil) (auto simp: xs_def clip_def)
    then show ?thesis
      using False unfolding out workWindow_def ws_def [symmetric] we_def [symmetric]
      by (simp add: cover_Nil)
  qed
qed

lemma busyGaps_cover:
  "cover (busyGaps items d h1 h2) = workWindow d h1 h2 - freeTime items"
proof -
  define ws where "ws = setHours d h1 0 0 0"
  define we where "we = setHours d h2 0 0 0"
  define xs where "xs = map (clip ws we) (freeSlotsOf items ws we)"
  have out: "busyGaps items d h1 h2 = sweep ws we xs"
    by (simp add: busyGaps_sweep ws_def we_def xs_def)
  have cov: "cover xs = freeTime items \<inter> {ws..<we}"
    using cover_freeSlotsOf [of items ws we] by (simp add: xs_def cover_map_clip)
  show ?thesis
  proof (cases "ws \<le> we")
    case True
    have "sorted (map range_start xs)"
      unfolding xs_def by (intro sorted_map_clip sorted_freeSlotsOf)
    moreover have "\<forall>x\<in>set xs. range_start x \<le> we"
      using True by (auto simp: xs_def clip_def freeSlotsOf_def)
    ultimately have "cover (sweep ws we xs) = {ws..<we} - cover xs"
      by (rule sweep_cover)
    then show ?thesis
      unfolding out workWindow_def cov ws_def [symmetric] we_def [symmetric] by blast
  next
    case False
    then have "sweep ws we xs = []"
      by (intro sweep_nil) (auto simp: xs_def clip_def freeSlotsOf_def)
    then show ?thesis
      using False unfolding out workWindow_def ws_def [symmetric] we_def [symmetric]
      by (simp add: cover_Nil)
  qed
qed

subsection \<open>Maximal intervals are unique\<close>

lemma chain_Cons:
  "chain (r # rs) \<longleftrightarrow>
     range_start r < range_end r \<and> (\<forall>b\<in>set rs. range_end r < range_start b) \<and> chain rs"
  by (auto simp: chain_def)

lemma chain_lower: "chain (r # rs) \<Longrightarrow> t \<in> cover (r # rs) \<Longrightarrow> range_start r \<le> t"
  by (fastforce simp: chain_Cons cover_def points_def)

lemma chain_end_notin: "chain (r # rs) \<Longrightarrow> range_end r \<notin> cover (r # rs)"
  by (fastforce simp: chain_Cons cover_def points_def)

lemma chain_start_in: "chain (r # rs) \<Longrightarrow> range_start r \<in> cover (r # rs)"
  by (simp add: chain_Cons cover_Cons points_def)

lemma chain_tail_cover: "chain (r # rs) \<Longrightarrow> cover rs = cover (r # rs) - points r"
  by (fastforce simp: chain_Cons cover_def points_def)

lemma chain_head_eq:
  assumes "chain (r # rs)" and "chain (q # qs)" and "cover (r # rs) = cover (q # qs)"
  shows "range_start r = range_start q \<and> range_end r = range_end q"
proof -
  have s: "range_start r = range_start q"
    using chain_lower [OF assms(1), of "range_start q"] chain_lower [OF assms(2), of "range_start r"]
      chain_start_in [OF assms(1)] chain_start_in [OF assms(2)] assms(3)
    by simp
  have ne: "range_start r < range_end r" "range_start q < range_end q"
    using assms(1,2) by (simp_all add: chain_Cons)
  have "\<not> range_end r < range_end q"
  proof
    assume "range_end r < range_end q"
    then have "range_end r \<in> points q"
      using s ne by (simp add: points_def)
    then have "range_end r \<in> cover (q # qs)"
      by (simp add: cover_Cons)
    then have "range_end r \<in> cover (r # rs)"
      by (simp only: assms(3))
    then show False
      using chain_end_notin [OF assms(1)] by simp
  qed
  moreover have "\<not> range_end q < range_end r"
  proof
    assume "range_end q < range_end r"
    then have "range_end q \<in> points r"
      using s ne by (simp add: points_def)
    then have "range_end q \<in> cover (r # rs)"
      by (simp add: cover_Cons)
    then have "range_end q \<in> cover (q # qs)"
      by (simp only: assms(3))
    then show False
      using chain_end_notin [OF assms(2)] by simp
  qed
  ultimately show ?thesis
    using s by simp
qed

lemma chain_unique:
  "chain rs \<Longrightarrow> chain qs \<Longrightarrow> cover rs = cover qs \<Longrightarrow> rs = qs"
proof (induction rs arbitrary: qs)
  case Nil
  show ?case
  proof (cases qs)
    case Nil
    then show ?thesis by simp
  next
    case (Cons q qs')
    with Nil.prems chain_start_in [of q qs'] show ?thesis
      by (simp add: cover_Nil)
  qed
next
  case (Cons r rs)
  show ?case
  proof (cases qs)
    case Nil
    with Cons.prems chain_start_in [of r rs] show ?thesis
      by (simp add: cover_Nil)
  next
    case qs: (Cons q qs')
    have head: "r = q"
      using chain_head_eq [of r rs q qs'] Cons.prems by (simp add: qs)
    have "cover rs = cover qs'"
      using chain_tail_cover [of r rs] chain_tail_cover [of q qs'] Cons.prems
      by (simp add: qs head)
    moreover have "chain rs" "chain qs'"
      using Cons.prems by (simp_all add: qs chain_Cons)
    ultimately have "rs = qs'"
      by (intro Cons.IH)
    with head show ?thesis
      by (simp add: qs)
  qed
qed

lemma chain_sweep:
  "sorted (map range_start xs) \<Longrightarrow> \<forall>x\<in>set xs. range_start x < range_end x \<Longrightarrow>
     chain (sweep cur we xs)"
  unfolding chain_def using sweep_separated [of xs cur we] sweep_bounds [of _ cur we xs] by blast

lemma chain_maximal:
  assumes "chain rs"
  shows "maximalIntervalsOf (cover rs) rs"
  using assms
proof (induction rs)
  case Nil
  show ?case by (simp add: maximalIntervalsOf_def)
next
  case (Cons r rs)
  have tail: "chain rs" and gap: "\<forall>b\<in>set rs. range_end r < range_start b"
    and ne: "range_start r < range_end r"
    using Cons.prems by (simp_all add: chain_Cons)
  have IH: "maximalIntervalsOf (cover rs) rs"
    using Cons.IH tail by simp
  have low: "range_end r < t" if "t \<in> cover rs" for t
    using that gap tail by (fastforce simp: cover_def points_def chain_def)
  have a: "range_start r - 1 \<notin> cover (r # rs)"
    using low [of "range_start r - 1"] ne by (auto simp: cover_Cons points_def)
  have b: "range_end r \<notin> cover (r # rs)"
    using low [of "range_end r"] by (auto simp: cover_Cons points_def)
  have c: "range_start x - 1 \<notin> points r \<and> range_end x \<notin> points r" if "x \<in> set rs" for x
    using that gap tail by (fastforce simp: points_def chain_def)
  have d: "\<not> overlaps r x \<and> range_start r \<le> range_start x" if "x \<in> set rs" for x
    using that gap ne by (fastforce simp: overlaps_def)
  show ?case
    using IH a b c d ne by (auto simp: maximalIntervalsOf_def cover_Cons)
qed

lemma maximal_chain:
  assumes "maximalIntervalsOf S rs"
  shows "chain rs"
proof -
  have ne: "\<forall>r\<in>set rs. range_start r < range_end r"
    and out: "\<forall>r\<in>set rs. range_end r \<notin> cover rs"
    and dis: "sorted_wrt (\<lambda>a b. \<not> overlaps a b) rs"
    and asc: "sorted (map range_start rs)"
    using assms by (auto simp: maximalIntervalsOf_def)
  from ne out dis asc have "sorted_wrt (\<lambda>a b. range_end a < range_start b) rs"
  proof (induction rs)
    case Nil
    show ?case by simp
  next
    case (Cons r rs)
    have "sorted_wrt (\<lambda>a b. range_end a < range_start b) rs"
      using Cons.prems by (intro Cons.IH) (auto simp: cover_Cons)
    moreover have "range_end r < range_start b" if "b \<in> set rs" for b
    proof -
      have "\<not> overlaps r b" "range_start r \<le> range_start b" "range_start b < range_end b"
        "range_start r < range_end r"
        using that Cons.prems by auto
      then have "range_end r \<le> range_start b"
        by (auto simp: overlaps_def)
      moreover have "range_end r \<notin> points b"
        using that Cons.prems(2) by (auto simp: cover_def)
      ultimately show ?thesis
        using \<open>range_start b < range_end b\<close> by (auto simp: points_def)
    qed
    ultimately show ?case by simp
  qed
  with ne show ?thesis
    by (simp add: chain_def)
qed

lemma maximalIntervalsOf_unique:
  "maximalIntervalsOf S rs \<Longrightarrow> maximalIntervalsOf S qs \<Longrightarrow> rs = qs"
  using chain_unique [of rs qs] maximal_chain [of S rs] maximal_chain [of S qs]
  by (simp add: maximalIntervalsOf_def)

subsection \<open>Free slots and busy gaps\<close>

lemma findFreeSlots_chain:
  assumes "\<forall>s\<in>set slots. slot_status s \<noteq> ''Free'' \<longrightarrow> slot_start s < slot_end s"
  shows "chain (findFreeSlots slots d dayEnd h1 h2)"
proof -
  define ws where "ws = setHours d h1 0 0 0"
  define we where "we = setHours d h2 0 0 0"
  define xs where "xs = map (clip ws we)
          (filter (\<lambda>b. \<not> (range_end b \<le> ws \<or> range_start b \<ge> we)) (busySlotsOf slots))"
  have out: "findFreeSlots slots d dayEnd h1 h2 = sweep ws we xs"
    by (simp add: findFreeSlots_sweep ws_def we_def xs_def)
  have wf: "\<forall>b\<in>set (busySlotsOf slots). range_start b < range_end b"
    using assms by (auto simp: busySlotsOf_def)
  show ?thesis
  proof (cases "ws < we")
    case True
    have "sorted (map range_start xs)"
      unfolding xs_def by (intro sorted_map_clip sorted_filter_starts sorted_busySlotsOf)
    moreover have "\<forall>x\<in>set xs. range_start x < range_end x"
      using True wf by (auto simp: xs_def clip_def)
    ultimately show ?thesis
      unfolding out by (rule chain_sweep)
  next
    case False
    then have "sweep ws we xs = []"
      by (intro sweep_nil) (auto simp: xs_def clip_def)
    then show ?thesis
      by (simp add: out chain_def)
  qed
qed

lemma clamp_Some:
  "clamp i \<lparr>range_start = ws, range_end = we\<rparr> = Some c \<Longrightarrow>
     range_start c < range_end c \<and> range_end c \<le> we \<and> points c = points i \<inter> {ws..<we}"
  by (auto simp: clamp_def Let_def points_def split: if_splits)

lemma clamp_None:
  "clamp i \<lparr>range_start = ws, range_end = we\<rparr> = None \<Longrightarrow> points i \<inter> {ws..<we} = {}"
  by (auto simp: clamp_def Let_def points_def split: if_splits)

lemma cover_clamped:
  "cover (List.map_filter (\<lambda>i. clamp i \<lparr>range_start = ws, range_end = we\<rparr>) ivs) =
     cover ivs \<inter> {ws..<we}"
proof (induction ivs)
  case Nil
  show ?case by (simp add: cover_Nil)
next
  case (Cons i ivs)
  show ?case
  proof (cases "clamp i \<lparr>range_start = ws, range_end = we\<rparr>")
    case None
    with clamp_None [OF None] Cons.IH show ?thesis
      by (auto simp: cover_Cons)
  next
    case (Some c)
    with clamp_Some [OF Some] Cons.IH show ?thesis
      by (auto simp: cover_Cons)
  qed
qed

lemma set_clamped:
  "c \<in> set (List.map_filter (\<lambda>i. clamp i \<lparr>range_start = ws, range_end = we\<rparr>) ivs) \<Longrightarrow>
     range_start c < range_end c \<and> range_end c \<le> we"
  by (auto simp: List.map_filter_def dest: clamp_Some)

lemma gapInverter_chain_cover:
  "chain (gapInverter ivs \<lparr>range_start = ws, range_end = we\<rparr>) \<and>
   cover (gapInverter ivs \<lparr>range_start = ws, range_end = we\<rparr>) = {ws..<we} - cover ivs"
proof -
  define B where "B = sortByStart (List.map_filter (\<lambda>i. clamp i \<lparr>range_start = ws, range_end = we\<rparr>) ivs)"
  have out: "gapInverter ivs \<lparr>range_start = ws, range_end = we\<rparr> = sweep ws we B"
    by (simp add: gapInverter_def B_def)
  have srt: "sorted (map range_start B)"
    by (simp add: B_def sortByStart_def)
  have el: "\<forall>x\<in>set B. range_start x < range_end x \<and> range_end x \<le> we"
    using set_clamped [of _ ws we ivs] by (auto simp: B_def sortByStart_def)
  have cov: "cover B = cover ivs \<inter> {ws..<we}"
    using cover_clamped [of ws we ivs] by (simp add: B_def sortByStart_def cover_def)
  have "chain (sweep ws we B)"
    using srt el by (intro chain_sweep) auto
  moreover have "cover (sweep ws we B) = {ws..<we} - cover B"
    using srt el by (intro sweep_cover) auto
  ultimately show ?thesis
    unfolding out cov by blast
qed

lemma busyGaps_chain:
  assumes "\<forall>i\<in>set items. item_status i = ''Free'' \<longrightarrow> dateTime (item_start i) < dateTime (item_end i)"
  shows "chain (busyGaps items d h1 h2)"
proof -
  define ws where "ws = setHours d h1 0 0 0"
  define we where "we = setHours d h2 0 0 0"
  define xs where "xs = map (clip ws we) (freeSlotsOf items ws we)"
  have out: "busyGaps items d h1 h2 = sweep ws we xs"
    by (simp add: busyGaps_sweep ws_def we_def xs_def)
  have wf: "\<forall>b\<in>set (freeSlotsOf items ws we). range_start b < range_end b"
    using assms by (auto simp: freeSlotsOf_def)
  show ?thesis
  proof (cases "ws < we")
    case True
    have "sorted (map range_start xs)"
      unfolding xs_def by (intro sorted_map_clip sorted_freeSlotsOf)
    moreover have "\<forall>x\<in>set xs. range_start x < range_end x"
      using True wf by (auto simp: xs_def clip_def freeSlotsOf_def)
    ultimately show ?thesis
      unfolding out by (rule chain_sweep)
  next
    case False
    then have "sweep ws we xs = []"
      by (intro sweep_nil) (auto simp: xs_def clip_def freeSlotsOf_def)
    then show ?thesis
      by (simp add: out chain_def)
  qed
qed

lemma freeTime_all_free:
  "\<forall>i\<in>set items. item_status i = ''Free'' \<Longrightarrow> freeTime items = cover (map intervalOf items)"
  by (simp add: freeTime_def cover_def points_def intervalOf_def image_image)

lemma busyGaps_gapInverter:
  assumes "\<forall>i\<in>set items. item_status i = ''Free'' \<and> dateTime (item_start i) < dateTime (item_end i)"
  shows "busyGaps items d h1 h2 =
     gapInverter (map intervalOf items)
       \<lparr>range_start = setHours d h1 0 0 0, range_end = setHours d h2 0 0 0\<rparr>"
proof (rule chain_unique)
  show "chain (busyGaps items d h1 h2)"
    using assms by (intro busyGaps_chain) simp
  show "chain (gapInverter (map intervalOf items)
       \<lparr>range_start = setHours d h1 0 0 0, range_end = setHours d h2 0 0 0\<rparr>)"
    using gapInverter_chain_cover by blast
  have "freeTime items = cover (map intervalOf items)"
    using assms by (intro freeTime_all_free) simp
  then show "cover (busyGaps items d h1 h2) =
      cover (gapInverter (map intervalOf items)
       \<lparr>range_start = setHours d h1 0 0 0, range_end = setHours d h2 0 0 0\<rparr>)"
    using gapInverter_chain_cover [of "map intervalOf items" "setHours d h1 0 0 0" "setHours d h2 0 0 0"]
    by (simp add: busyGaps_cover workWindow_def)
qed

text \<open>
  Claim C1, as amended. For every list of slots and every work window, the intervals that
  \<^verbatim>\<open>findFreeSlots\<close> returns cover exactly the time in the window that no slot other than
  \<^verbatim>\<open>Free\<close> covers. When each slot that is not \<^verbatim>\<open>Free\<close> has its start before its end,
  they are exactly the maximal intervals of that time: none is empty or extends further
  within it, no two overlap, their starts ascend, and no other list has these properties.
  In particular the window 09:00 to 17:00 with the slots 10:00 to 10:30 (Busy) and 13:00
  to 14:00 (Tentative) gives 09:00 to 10:00, 10:30 to 13:00 and 14:00 to 17:00.
\<close>

theorem findFreeSlots_maximal_free_intervals:
  "cover (findFreeSlots slots dayStart dayEnd workStart workEnd) =
     workWindow dayStart workStart workEnd - busyTime slots \<and>
   ((\<forall>s\<in>set slots. slot_status s \<noteq> ''Free'' \<longrightarrow> slot_start s < slot_end s) \<longrightarrow>
      maximalIntervalsOf (workWindow dayStart workStart workEnd - busyTime slots)
        (findFreeSlots slots dayStart dayEnd workStart workEnd) \<and>
      (\<forall>rs. maximalIntervalsOf (workWindow dayStart workStart workEnd - busyTime slots) rs \<longrightarrow>
         rs = findFreeSlots slots dayStart dayEnd workStart workEnd)) \<and>
   findFreeSlots
     [\<lparr>slot_start = 36000000, slot_end = 37800000, slot_status = ''Busy'', slot_subject = None\<rparr>,
      \<lparr>slot_start = 46800000, slot_end = 50400000, slot_status = ''Tentative'',
       slot_subject = None\<rparr>] 0 86399999 9 17 =
     [\<lparr>range_start = 32400000, range_end = 36000000\<rparr>,
      \<lparr>range_start = 37800000, range_end = 46800000\<rparr>,
      \<lparr>range_start = 50400000, range_end = 61200000\<rparr>]"
proof (intro conjI impI allI)
  show "cover (findFreeSlots slots dayStart dayEnd workStart workEnd) =
     workWindow dayStart workStart workEnd - busyTime slots"
    by (rule findFreeSlots_cover)
next
  assume wf: "\<forall>s\<in>set slots. slot_status s \<noteq> ''Free'' \<longrightarrow> slot_start s < slot_end s"
  show m: "maximalIntervalsOf (workWindow dayStart workStart workEnd - busyTime slots)
        (findFreeSlots slots dayStart dayEnd workStart workEnd)"
    using chain_maximal [OF findFreeSlots_chain [OF wf, of dayStart dayEnd workStart workEnd]]
    by (simp add: findFreeSlots_cover)
  fix rs
  assume "maximalIntervalsOf (workWindow dayStart workStart workEnd - busyTime slots) rs"
  then show "rs = findFreeSlots slots dayStart dayEnd workStart workEnd"
    using m by (rule maximalIntervalsOf_unique)
next
  show "findFreeSlots
     [\<lparr>slot_start = 36000000, slot_end = 37800000, slot_status = ''Busy'', slot_subject = None\<rparr>,
      \<lparr>slot_start = 46800000, slot_end = 50400000, slot_status = ''Tentative'',
       slot_subject = None\<rparr>] 0 86399999 9 17 =
     [\<lparr>range_start = 32400000, range_end = 36000000\<rparr>,
      \<lparr>range_start = 37800000, range_end = 46800000\<rparr>,
      \<lparr>range_start = 50400000, range_end = 61200000\<rparr>]"
    by (simp add: findFreeSlots_def setHours_def)
qed

theorem findFreeSlots_maximal_free_intervals_witness:
  "maximalIntervalsOf
     (workWindow 0 9 17 -
      busyTime
        [\<lparr>slot_start = 36000000, slot_end = 37800000, slot_status = ''Busy'', slot_subject = None\<rparr>,
         \<lparr>slot_start = 46800000, slot_end = 50400000, slot_status = ''Tentative'',
          slot_subject = None\<rparr>])
     [\<lparr>range_start = 32400000, range_end = 36000000\<rparr>,
      \<lparr>range_start = 37800000, range_end = 46800000\<rparr>,
      \<lparr>range_start = 50400000, range_end = 61200000\<rparr>]"
proof -
  let ?slots = "[\<lparr>slot_start = 36000000, slot_end = 37800000, slot_status = ''Busy'', slot_subject = None\<rparr>,
         \<lparr>slot_start = 46800000, slot_end = 50400000, slot_status = ''Tentative'',
          slot_subject = None\<rparr>]"
  have wf: "\<forall>s\<in>set ?slots. slot_status s \<noteq> ''Free'' \<longrightarrow> slot_start s < slot_end s"
    by simp
  have "maximalIntervalsOf (workWindow 0 9 17 - busyTime ?slots) (findFreeSlots ?slots 0 86399999 9 17)"
    using findFreeSlots_maximal_free_intervals [of ?slots 0 86399999 9 17] wf by blast
  moreover have "findFreeSlots ?slots 0 86399999 9 17 = [\<lparr>range_start = 32400000, range_end = 36000000\<rparr>,
      \<lparr>range_start = 37800000, range_end = 46800000\<rparr>,
      \<lparr>range_start = 50400000, range_end = 61200000\<rparr>]"
    by (simp add: findFreeSlots_def setHours_def)
  ultimately show ?thesis by simp
qed

text \<open>
  Without the condition the result need not be maximal: a busy slot of zero length at
  12:00 splits the free window 09:00 to 17:00 in two, although it covers no time.
\<close>

theorem findFreeSlots_zero_length_busy_counterexample:
  "findFreeSlots
     [\<lparr>slot_start = 43200000, slot_end = 43200000, slot_status = ''Busy'', slot_subject = None\<rparr>]
     0 86399999 9 17 =
     [\<lparr>range_start = 32400000, range_end = 43200000\<rparr>,
      \<lparr>range_start = 43200000, range_end = 61200000\<rparr>] \<and>
   \<not> maximalIntervalsOf
       (workWindow 0 9 17 -
        busyTime [\<lparr>slot_start = 43200000, slot_end = 43200000, slot_status = ''Busy'',
                   slot_subject = None\<rparr>])
       (findFreeSlots
          [\<lparr>slot_start = 43200000, slot_end = 43200000, slot_status = ''Busy'',
            slot_subject = None\<rparr>] 0 86399999 9 17)"
proof -
  have out: "findFreeSlots
     [\<lparr>slot_start = 43200000, slot_end = 43200000, slot_status = ''Busy'', slot_subject = None\<rparr>]
     0 86399999 9 17 =
     [\<lparr>range_start = 32400000, range_end = 43200000\<rparr>,
      \<lparr>range_start = 43200000, range_end = 61200000\<rparr>]"
    by (simp add: findFreeSlots_def setHours_def)
  show ?thesis
    unfolding out by (simp add: maximalIntervalsOf_def workWindow_def busyTime_def setHours_def)
qed

text \<open>
  Claim C2, as amended. For every list of schedule items and every work window,
  \<^verbatim>\<open>findBusyFromFreeSlots\<close> keeps the \<^verbatim>\<open>Free\<close> items that end after the window start
  and start before the window end, sorts them by start, clamps each to the window and
  sweeps the cursor from the window start: it emits the gap before each interval that
  starts after the cursor with the status \<^verbatim>\<open>Busy\<close>, moves the cursor to the maximum of
  itself and the interval's end, and emits the trailing gap when the cursor ends before the
  window end; each gap is rendered by \<^verbatim>\<open>formatTime\<close>. When all items have the status
  \<^verbatim>\<open>Free\<close> and their start before their end, this is the specification's Gap Inverter,
  which clamps first and discards the intervals that clamp to nothing. In particular the
  free item 09:00 to 12:00 over the window 09:00 to 17:00 gives the one gap 12:00 to 17:00
  with status \<^verbatim>\<open>Busy\<close>.
\<close>

theorem findBusyFromFreeSlots_is_gap_inverter:
  "findBusyFromFreeSlots freeItems dayStart workStartHour workEndHour =
     map busySummary
       (sweep (setHours dayStart workStartHour 0 0 0) (setHours dayStart workEndHour 0 0 0)
          (map (clip (setHours dayStart workStartHour 0 0 0) (setHours dayStart workEndHour 0 0 0))
             (sort_key range_start
                (filter (\<lambda>slot. range_end slot > setHours dayStart workStartHour 0 0 0 \<and>
                               range_start slot < setHours dayStart workEndHour 0 0 0)
                   (map intervalOf (filter (\<lambda>item. item_status item = ''Free'') freeItems)))))) \<and>
   ((\<forall>i\<in>set freeItems. item_status i = ''Free'' \<and> dateTime (item_start i) < dateTime (item_end i)) \<longrightarrow>
      findBusyFromFreeSlots freeItems dayStart workStartHour workEndHour =
        map busySummary
          (gapInverter (map intervalOf freeItems)
             \<lparr>range_start = setHours dayStart workStartHour 0 0 0,
              range_end = setHours dayStart workEndHour 0 0 0\<rparr>)) \<and>
   findBusyFromFreeSlots
     [\<lparr>item_status = ''Free'',
       item_start = \<lparr>dateTime = 32400000, timeZone = ''UTC''\<rparr>,
       item_end = \<lparr>dateTime = 43200000, timeZone = ''UTC''\<rparr>,
       item_subject = None\<rparr>] 0 9 17 =
     [\<lparr>startTime = ''12:00'', endTime = ''17:00'', status = ''Busy''\<rparr>]"
proof (intro conjI impI)
  have "freeSlotsOf freeItems ws we =
      sort_key range_start
        (filter (\<lambda>slot. range_end slot > ws \<and> range_start slot < we)
           (map intervalOf (filter (\<lambda>item. item_status item = ''Free'') freeItems)))" for ws we
    by (simp add: freeSlotsOf_def intervalOf_def [abs_def])
  then show "findBusyFromFreeSlots freeItems dayStart workStartHour workEndHour =
     map busySummary
       (sweep (setHours dayStart workStartHour 0 0 0) (setHours dayStart workEndHour 0 0 0)
          (map (clip (setHours dayStart workStartHour 0 0 0) (setHours dayStart workEndHour 0 0 0))
             (sort_key range_start
                (filter (\<lambda>slot. range_end slot > setHours dayStart workStartHour 0 0 0 \<and>
                               range_start slot < setHours dayStart workEndHour 0 0 0)
                   (map intervalOf (filter (\<lambda>item. item_status item = ''Free'') freeItems))))))"
    by (simp only: findBusyFromFreeSlots_busyGaps busyGaps_sweep)
next
  assume "\<forall>i\<in>set freeItems. item_status i = ''Free'' \<and> dateTime (item_start i) < dateTime (item_end i)"
  then show "findBusyFromFreeSlots freeItems dayStart workStartHour workEndHour =
        map busySummary
          (gapInverter (map intervalOf freeItems)
             \<lparr>range_start = setHours dayStart workStartHour 0 0 0,
              range_end = setHours dayStart workEndHour 0 0 0\<rparr>)"
    by (simp only: findBusyFromFreeSlots_busyGaps busyGaps_gapInverter)
next
  show "findBusyFromFreeSlots
     [\<lparr>item_status = ''Free'',
       item_start = \<lparr>dateTime = 32400000, timeZone = ''UTC''\<rparr>,
       item_end = \<lparr>dateTime = 43200000, timeZone = ''UTC''\<rparr>,
       item_subject = None\<rparr>] 0 9 17 =
     [\<lparr>startTime = ''12:00'', endTime = ''17:00'', status = ''Busy''\<rparr>]"
    by (simp add: findBusyFromFreeSlots_def freeSlotsOf_def setHours_def formatTime_def
        two_digit_def digit_def)
qed

theorem findBusyFromFreeSlots_is_gap_inverter_witness:
  "map busySummary
     (gapInverter [\<lparr>range_start = 32400000, range_end = 43200000\<rparr>]
        \<lparr>range_start = setHours 0 9 0 0 0, range_end = setHours 0 17 0 0 0\<rparr>) =
     [\<lparr>startTime = ''12:00'', endTime = ''17:00'', status = ''Busy''\<rparr>]"
proof -
  let ?items = "[\<lparr>item_status = ''Free'',
       item_start = \<lparr>dateTime = 32400000, timeZone = ''UTC''\<rparr>,
       item_end = \<lparr>dateTime = 43200000, timeZone = ''UTC''\<rparr>,
       item_subject = None\<rparr>]"
  have wf: "\<forall>i\<in>set ?items. item_status i = ''Free'' \<and>
      dateTime (item_start i) < dateTime (item_end i)"
    by simp
  have "findBusyFromFreeSlots ?items 0 9 17 =
      map busySummary
        (gapInverter (map intervalOf ?items)
           \<lparr>range_start = setHours 0 9 0 0 0, range_end = setHours 0 17 0 0 0\<rparr>)"
    using findBusyFromFreeSlots_is_gap_inverter [of ?items 0 9 17] wf by blast
  moreover have "findBusyFromFreeSlots ?items 0 9 17 =
      [\<lparr>startTime = ''12:00'', endTime = ''17:00'', status = ''Busy''\<rparr>]"
    using findBusyFromFreeSlots_is_gap_inverter [of ?items 0 9 17] by blast
  ultimately show ?thesis
    by (simp add: intervalOf_def)
qed

text \<open>
  The claim as stated fails: the specification's \<open>clamp\<close> discards the intervals that clamp
  to nothing, so the Gap Inverter discards a free item of zero length at 12:00 and reports
  the one gap 09:00 to 17:00, where \<^verbatim>\<open>findBusyFromFreeSlots\<close> keeps the item and reports
  two gaps. (The filter before the loop is needed by the loop's own clamping, which bounds
  the start from below and the end from above only: without the filter a free item from
  18:00 to 19:00 would become 18:00 to 17:00 and give the gap 09:00 to 18:00, where the
  function reports 09:00 to 17:00.)
\<close>

theorem findBusyFromFreeSlots_zero_length_free_counterexample:
  "findBusyFromFreeSlots
     [\<lparr>item_status = ''Free'',
       item_start = \<lparr>dateTime = 43200000, timeZone = ''UTC''\<rparr>,
       item_end = \<lparr>dateTime = 43200000, timeZone = ''UTC''\<rparr>,
       item_subject = None\<rparr>] 0 9 17 =
     [\<lparr>startTime = ''09:00'', endTime = ''12:00'', status = ''Busy''\<rparr>,
      \<lparr>startTime = ''12:00'', endTime = ''17:00'', status = ''Busy''\<rparr>] \<and>
   map busySummary
     (gapInverter [\<lparr>range_start = 43200000, range_end = 43200000\<rparr>]
        \<lparr>range_start = setHours 0 9 0 0 0, range_end = setHours 0 17 0 0 0\<rparr>) =
     [\<lparr>startTime = ''09:00'', endTime = ''17:00'', status = ''Busy''\<rparr>] \<and>
   findBusyFromFreeSlots
     [\<lparr>item_status = ''Free'',
       item_start = \<lparr>dateTime = 64800000, timeZone = ''UTC''\<rparr>,
       item_end = \<lparr>dateTime = 68400000, timeZone = ''UTC''\<rparr>,
       item_subject = None\<rparr>] 0 9 17 =
     [\<lparr>startTime = ''09:00'', endTime = ''17:00'', status = ''Busy''\<rparr>] \<and>
   map busySummary
     (sweep (setHours 0 9 0 0 0) (setHours 0 17 0 0 0)
        (sortByStart
           (map (clip (setHours 0 9 0 0 0) (setHours 0 17 0 0 0))
              [\<lparr>range_start = 64800000, range_end = 68400000\<rparr>]))) =
     [\<lparr>startTime = ''09:00'', endTime = ''18:00'', status = ''Busy''\<rparr>]"
  by (simp add: findBusyFromFreeSlots_def freeSlotsOf_def setHours_def formatTime_def
        two_digit_def digit_def gapInverter_def clamp_def sortByStart_def busySummary_def
        clip_def)

subsection \<open>parseAvailabilityView\<close>

lemma parseAvailabilityView_flush:
  "parseAvailabilityView view s w = flush (parse_loop s w 0 view ([], None))"
  by (simp add: parseAvailabilityView_def flush_def)

lemma parse_loop_blocks:
  "flush (parse_loop s w i v (blocks, cur)) = blocks @ flush (parse_loop s w i v ([], cur))"
proof (induction v arbitrary: i blocks cur)
  case Nil
  show ?case by (simp add: flush_def split: option.splits)
next
  case (Cons c v)
  note IH = Cons.IH
  show ?case
  proof (cases cur)
    case None
    then show ?thesis
      by (simp add: Let_def IH [of _ blocks])
  next
    case (Some b)
    have a: "flush (parse_loop s w (Suc i) v (blocks @ [b], x)) =
          blocks @ flush (parse_loop s w (Suc i) v ([b], x))" for x
      using IH [of "Suc i" "blocks @ [b]" x] IH [of "Suc i" "[b]" x] by simp
    show ?thesis
      using Some by (simp add: Let_def a IH [of _ blocks])
  qed
qed

lemma runLengths_pos: "(q, n) \<in> set (runLengths xs) \<Longrightarrow> 0 < n"
  by (induction xs arbitrary: q n) (auto split: list.splits if_splits)

lemma parse_loop_runs:
  "flush (parse_loop s w i v ([], None)) = placeRuns s w i (runLengths (map statusOf v))"
  "block_status b \<noteq> ''Free'' \<Longrightarrow>
   flush (parse_loop s w i v ([], Some b)) =
     (case runLengths (map statusOf v) of
        [] \<Rightarrow> [b]
      | (q, n) # rs \<Rightarrow>
          if q = block_status b
          then b\<lparr>block_end := s + int (i + n) * w * 60000\<rparr> # placeRuns s w (i + n) rs
          else b # placeRuns s w i ((q, n) # rs))"
proof (induction v arbitrary: i b)
  case Nil
  {
    case 1
    show ?case by (simp add: flush_def)
  next
    case 2
    show ?case by (simp add: flush_def)
  }
next
  case (Cons c v)
  {
    case 1
    show ?case
    proof (cases "statusOf c = ''Free''")
      case True
      then show ?thesis
        by (simp add: Cons.IH(1) split: list.splits)
    next
      case False
      then show ?thesis
        by (simp add: Let_def Cons.IH(2) algebra_simps split: list.splits)
    qed
  next
    case 2
    show ?case
    proof (cases "statusOf c = ''Free''")
      case True
      then show ?thesis
        using 2 by (simp add: parse_loop_blocks [of s w _ v "[b]"] Cons.IH(1) split: list.splits)
    next
      case False
      show ?thesis
      proof (cases "block_status b = statusOf c")
        case True
        then show ?thesis
          using False 2
          by (simp add: Let_def Cons.IH(2) algebra_simps split: list.splits)
      next
        case neq: False
        then show ?thesis
          using False 2
          by (simp add: Let_def parse_loop_blocks [of s w _ v "[b]"] Cons.IH(2) algebra_simps
              split: list.splits)
      qed
    qed
  }
qed

lemma parseAvailabilityView_decode:
  "parseAvailabilityView view s w = decodeAvailabilityView view s w"
  by (simp add: parseAvailabilityView_flush parse_loop_runs(1) decodeAvailabilityView_def)

lemma parse_loop_append:
  "parse_loop s w i (v @ v') st = parse_loop s w (i + length v) v' (parse_loop s w i v st)"
proof (induction v arbitrary: i st)
  case Nil
  show ?case by simp
next
  case (Cons c v)
  obtain blocks cur where st: "st = (blocks, cur)"
    by (cases st)
  show ?case
    unfolding st by (cases cur) (simp_all add: Let_def Cons.IH)
qed

lemma parse_loop_current:
  assumes "v \<noteq> []"
  shows "case snd (parse_loop s w i v st) of
           None \<Rightarrow> statusOf (last v) = ''Free''
         | Some b \<Rightarrow> block_status b = statusOf (last v) \<and> statusOf (last v) \<noteq> ''Free''"
proof -
  obtain blocks cur where st': "parse_loop s w i (butlast v) st = (blocks, cur)"
    by (cases "parse_loop s w i (butlast v) st")
  have "parse_loop s w i v st = parse_loop s w (i + length (butlast v)) [last v] (blocks, cur)"
    using parse_loop_append [of s w i "butlast v" "[last v]" st] assms by (simp add: st')
  then show ?thesis
    by (cases cur) (simp_all add: Let_def)
qed

lemma parse_snoc_new:
  assumes "statusOf c \<noteq> ''Free''" and "view = [] \<or> statusOf (last view) \<noteq> statusOf c"
  shows "parseAvailabilityView (view @ [c]) s w =
     parseAvailabilityView view s w @
       [\<lparr>block_start = s + int (length view) * w * 60000,
         block_end = s + int (length view) * w * 60000 + w * 60000,
         block_status = statusOf c\<rparr>]"
proof -
  obtain blocks cur where st: "parse_loop s w 0 view ([], None) = (blocks, cur)"
    by (cases "parse_loop s w 0 view ([], None)")
  have cur: "cur = None \<or> (\<exists>b. cur = Some b \<and> block_status b \<noteq> statusOf c)"
  proof (cases "view = []")
    case True
    with st show ?thesis by simp
  next
    case False
    with parse_loop_current [OF False, of s w 0 "([], None)"] assms(2) st show ?thesis
      by (cases cur) auto
  qed
  have "parseAvailabilityView (view @ [c]) s w =
      flush (parse_loop s w (length view) [c] (blocks, cur))"
    by (simp add: parseAvailabilityView_flush parse_loop_append st)
  moreover have "parseAvailabilityView view s w = flush (blocks, cur)"
    by (simp add: parseAvailabilityView_flush st)
  ultimately show ?thesis
    using cur assms(1) by (auto simp: flush_def Let_def)
qed

lemma parse_snoc_free:
  assumes "statusOf c = ''Free''"
  shows "parseAvailabilityView (view @ [c]) s w = parseAvailabilityView view s w"
proof -
  obtain blocks cur where st: "parse_loop s w 0 view ([], None) = (blocks, cur)"
    by (cases "parse_loop s w 0 view ([], None)")
  have "parseAvailabilityView (view @ [c]) s w =
      flush (parse_loop s w (length view) [c] (blocks, cur))"
    by (simp add: parseAvailabilityView_flush parse_loop_append st)
  moreover have "parseAvailabilityView view s w = flush (blocks, cur)"
    by (simp add: parseAvailabilityView_flush st)
  ultimately show ?thesis
    using assms by (cases cur) (simp_all add: flush_def Let_def)
qed

lemma parse_snoc_same:
  assumes "view \<noteq> []" and "statusOf (last view) = statusOf c" and "statusOf c \<noteq> ''Free''"
  shows "parseAvailabilityView (view @ [c]) s w =
     butlast (parseAvailabilityView view s w) @
       [(last (parseAvailabilityView view s w))
          \<lparr>block_end := s + int (length view) * w * 60000 + w * 60000\<rparr>]"
proof -
  obtain blocks cur where st: "parse_loop s w 0 view ([], None) = (blocks, cur)"
    by (cases "parse_loop s w 0 view ([], None)")
  obtain b where cur: "cur = Some b" "block_status b = statusOf c"
    using parse_loop_current [OF assms(1), of s w 0 "([], None)"] assms(2,3) st
    by (cases cur) auto
  have "parseAvailabilityView (view @ [c]) s w =
      flush (parse_loop s w (length view) [c] (blocks, cur))"
    by (simp add: parseAvailabilityView_flush parse_loop_append st)
  moreover have "parseAvailabilityView view s w = flush (blocks, cur)"
    by (simp add: parseAvailabilityView_flush st)
  ultimately show ?thesis
    using cur assms(3) by (simp add: flush_def Let_def)
qed

text \<open>
  Claim C3. \<^verbatim>\<open>parseAvailabilityView\<close> returns the maximal runs of adjacent buckets of
  the same status other than \<^verbatim>\<open>Free\<close>, in input order. Bucket by bucket: a
  \<^verbatim>\<open>Free\<close> bucket adds nothing to the result (it starts no run and closes the open
  one); a bucket of the status of the bucket before it extends the last run to the
  bucket's end; a bucket of another status than the bucket before it (or the first
  bucket) adds one run, of exactly the bucket's width, and leaves the earlier runs as they
  are. The empty string gives the empty result, and \<^verbatim>\<open>0022110\<close> with buckets of 30
  minutes from 2024-01-01T00:00 gives Busy from 01:00 to 02:00 and Tentative from 02:00 to
  03:00.
\<close>

theorem parseAvailabilityView_coalesces_runs:
  "parseAvailabilityView view startDate intervalMinutes =
     decodeAvailabilityView view startDate intervalMinutes \<and>
   (statusOf c = ''Free'' \<longrightarrow>
      parseAvailabilityView (view @ [c]) startDate intervalMinutes =
        parseAvailabilityView view startDate intervalMinutes) \<and>
   (view \<noteq> [] \<and> statusOf (last view) = statusOf c \<and> statusOf c \<noteq> ''Free'' \<longrightarrow>
      parseAvailabilityView (view @ [c]) startDate intervalMinutes =
        butlast (parseAvailabilityView view startDate intervalMinutes) @
          [(last (parseAvailabilityView view startDate intervalMinutes))
             \<lparr>block_end := startDate + int (length view) * intervalMinutes * 60000 +
                             intervalMinutes * 60000\<rparr>]) \<and>
   (statusOf c \<noteq> ''Free'' \<and> (view = [] \<or> statusOf (last view) \<noteq> statusOf c) \<longrightarrow>
      parseAvailabilityView (view @ [c]) startDate intervalMinutes =
        parseAvailabilityView view startDate intervalMinutes @
          [\<lparr>block_start = startDate + int (length view) * intervalMinutes * 60000,
            block_end = startDate + int (length view) * intervalMinutes * 60000 +
                        intervalMinutes * 60000,
            block_status = statusOf c\<rparr>]) \<and>
   parseAvailabilityView [] startDate intervalMinutes = [] \<and>
   parseAvailabilityView ''0022110'' 1704067200000 30 =
     [\<lparr>block_start = 1704070800000, block_end = 1704074400000, block_status = ''Busy''\<rparr>,
      \<lparr>block_start = 1704074400000, block_end = 1704078000000, block_status = ''Tentative''\<rparr>]"
proof (intro conjI impI)
  show "parseAvailabilityView view startDate intervalMinutes =
     decodeAvailabilityView view startDate intervalMinutes"
    by (rule parseAvailabilityView_decode)
  show "parseAvailabilityView [] startDate intervalMinutes = []"
    by (simp add: parseAvailabilityView_def)
  show "parseAvailabilityView ''0022110'' 1704067200000 30 =
     [\<lparr>block_start = 1704070800000, block_end = 1704074400000, block_status = ''Busy''\<rparr>,
      \<lparr>block_start = 1704074400000, block_end = 1704078000000, block_status = ''Tentative''\<rparr>]"
    by (simp add: parseAvailabilityView_def statusOf_def statusMap_def)
qed (simp_all add: parse_snoc_free parse_snoc_same parse_snoc_new)

theorem parseAvailabilityView_coalesces_runs_witness:
  "parseAvailabilityView ''0002'' 1704067200000 30 =
     [\<lparr>block_start = 1704072600000, block_end = 1704074400000, block_status = ''Busy''\<rparr>] \<and>
   parseAvailabilityView ''22'' 1704067200000 30 =
     [\<lparr>block_start = 1704067200000, block_end = 1704070800000, block_status = ''Busy''\<rparr>] \<and>
   parseAvailabilityView ''220'' 1704067200000 30 =
     parseAvailabilityView ''22'' 1704067200000 30"
proof -
  have a: "statusOf CHR ''2'' \<noteq> ''Free''" "statusOf (last ''000'') \<noteq> statusOf CHR ''2''"
    "statusOf CHR ''0'' = ''Free''" "''2'' \<noteq> []" "statusOf (last ''2'') = statusOf CHR ''2''"
    by (simp_all add: statusOf_def statusMap_def)
  have z: "parseAvailabilityView ''000'' 1704067200000 30 = []"
    "parseAvailabilityView ''2'' 1704067200000 30 =
       [\<lparr>block_start = 1704067200000, block_end = 1704069000000, block_status = ''Busy''\<rparr>]"
    by (simp_all add: parseAvailabilityView_def statusOf_def statusMap_def)
  have "parseAvailabilityView (''000'' @ [CHR ''2'']) 1704067200000 30 =
      [\<lparr>block_start = 1704072600000, block_end = 1704074400000, block_status = ''Busy''\<rparr>]"
    using parseAvailabilityView_coalesces_runs [of "''000''" 1704067200000 30 "CHR ''2''"] a z
    by (simp add: statusOf_def statusMap_def)
  moreover have "parseAvailabilityView (''2'' @ [CHR ''2'']) 1704067200000 30 =
      [\<lparr>block_start = 1704067200000, block_end = 1704070800000, block_status = ''Busy''\<rparr>]"
    using parseAvailabilityView_coalesces_runs [of "''2''" 1704067200000 30 "CHR ''2''"] a z
    by simp
  moreover have "parseAvailabilityView (''22'' @ [CHR ''0'']) 1704067200000 30 =
      parseAvailabilityView ''22'' 1704067200000 30"
    using parseAvailabilityView_coalesces_runs [of "''22''" 1704067200000 30 "CHR ''0''"] a
    by blast
  ultimately show ?thesis
    by simp
qed

subsection \<open>The duration string\<close>

lemma round_minutes: "round (real_of_int d / 60000) = (d + 30000) div 60000"
proof -
  have "real_of_int d / 60000 + 1 / 2 = real_of_int (d + 30000) / real_of_int 60000"
    by simp
  then have "round (real_of_int d / 60000) = \<lfloor>real_of_int (d + 30000) / real_of_int 60000\<rfloor>"
    by (simp only: round_def)
  then show ?thesis
    by (simp only: floor_divide_of_int_eq)
qed

lemma show_int_0: "show_int 0 = ''0''"
  by (simp add: show_int_def digit_def)

lemma durationStr_int:
  "durationStr slot =
     (let duration = (range_end slot - range_start slot + 30000) div 60000;
          hours = duration div 60;
          mins = js_rem duration 60
      in if hours > 0
         then show_int hours @ ''h'' @ (if mins > 0 then '' '' @ show_int mins @ ''m'' else [])
         else show_int mins @ ''m'')"
  unfolding durationStr_def round_minutes by (rule refl)

lemma durationSpec_int:
  "durationSpec slot =
     (let minutes = (range_end slot - range_start slot + 30000) div 60000;
          h = minutes div 60;
          m = minutes mod 60;
          terms = (if h = 0 then [] else [show_int h @ ''h'']) @
                  (if m = 0 then [] else [show_int m @ ''m''])
      in if terms = [] then ''0m'' else joinWords terms)"
  unfolding durationSpec_def round_minutes by (rule refl)

lemma durationStr_spec:
  assumes "range_start slot \<le> range_end slot"
  shows "durationStr slot = durationSpec slot"
proof -
  define duration where "duration = (range_end slot - range_start slot + 30000) div 60000"
  have nonneg: "0 \<le> duration"
    using assms by (simp add: duration_def)
  then have h: "0 \<le> duration div 60" and m: "0 \<le> duration mod 60"
    by simp_all
  have rem: "js_rem duration 60 = duration mod 60"
    using nonneg by (simp add: js_rem_def)
  have zero: "duration = 0" if "duration div 60 = 0" "duration mod 60 = 0"
    using that by presburger
  have small: "duration mod 60 = duration" if "duration div 60 = 0"
    using that nonneg by presburger
  have S: "durationStr slot =
      (if 0 < duration div 60
       then show_int (duration div 60) @ ''h'' @
            (if 0 < duration mod 60 then '' '' @ show_int (duration mod 60) @ ''m'' else [])
       else show_int (duration mod 60) @ ''m'')"
    unfolding durationStr_int duration_def [symmetric] Let_def rem by (rule refl)
  have T: "durationSpec slot =
      (if (if duration div 60 = 0 then [] else [show_int (duration div 60) @ ''h'']) @
          (if duration mod 60 = 0 then [] else [show_int (duration mod 60) @ ''m'']) = []
       then ''0m''
       else joinWords
          ((if duration div 60 = 0 then [] else [show_int (duration div 60) @ ''h'']) @
           (if duration mod 60 = 0 then [] else [show_int (duration mod 60) @ ''m''])))"
    unfolding durationSpec_int duration_def [symmetric] Let_def by (rule refl)
  show ?thesis
  proof (cases "duration div 60 = 0")
    case True
    then show ?thesis
      using m small [OF True] unfolding S T by (simp add: show_int_0)
  next
    case False
    with h have "0 < duration div 60" by simp
    then show ?thesis
      using m unfolding S T by (cases "duration mod 60 = 0") simp_all
  qed
qed

lemma findFreeSlots_nonempty:
  "r \<in> set (findFreeSlots slots d dayEnd h1 h2) \<Longrightarrow> range_start r < range_end r"
  unfolding findFreeSlots_sweep by (rule sweep_bounds [THEN conjunct2])

text \<open>
  Claim C7. The duration string of a free slot is the specification's: the duration is
  \<^verbatim>\<open>round((end - start) / 60000)\<close> whole minutes, rendered as \<^verbatim>\<open>{h}h {m}m\<close> without the
  minutes term when it is zero, without the hours term when it is zero, and as \<^verbatim>\<open>0m\<close>
  when the duration is zero. This holds for every slot that \<^verbatim>\<open>findFreeSlots\<close> returns,
  and for every interval that does not end before its start. A slot of 90 minutes gives
  \<^verbatim>\<open>1h 30m\<close>, one of 45 minutes \<^verbatim>\<open>45m\<close>, one of 0 minutes \<^verbatim>\<open>0m\<close>, and one of 120
  minutes \<^verbatim>\<open>2h\<close>.
\<close>

theorem duration_string:
  "(slot \<in> set (findFreeSlots slots dayStart dayEnd workStart workEnd) \<longrightarrow>
      durationStr slot = durationSpec slot) \<and>
   (range_start slot \<le> range_end slot \<longrightarrow> durationStr slot = durationSpec slot) \<and>
   durationStr \<lparr>range_start = 32400000, range_end = 37800000\<rparr> = ''1h 30m'' \<and>
   durationStr \<lparr>range_start = 32400000, range_end = 35100000\<rparr> = ''45m'' \<and>
   durationStr \<lparr>range_start = 32400000, range_end = 32400000\<rparr> = ''0m'' \<and>
   durationStr \<lparr>range_start = 32400000, range_end = 39600000\<rparr> = ''2h''"
proof (intro conjI impI)
  assume "slot \<in> set (findFreeSlots slots dayStart dayEnd workStart workEnd)"
  then have "range_start slot \<le> range_end slot"
    using findFreeSlots_nonempty [of slot] by fastforce
  then show "durationStr slot = durationSpec slot"
    by (rule durationStr_spec)
next
  assume "range_start slot \<le> range_end slot"
  then show "durationStr slot = durationSpec slot"
    by (rule durationStr_spec)
qed (simp_all add: durationStr_int js_rem_def show_int_def digit_def)

theorem duration_string_witness:
  "durationSpec \<lparr>range_start = 32400000, range_end = 36000000\<rparr> = ''1h'' \<and>
   durationSpec \<lparr>range_start = 37800000, range_end = 46800000\<rparr> = ''2h 30m''"
proof -
  let ?slots = "[\<lparr>slot_start = 36000000, slot_end = 37800000, slot_status = ''Busy'',
                  slot_subject = None\<rparr>]"
  have out: "findFreeSlots ?slots 0 86399999 9 17 =
      [\<lparr>range_start = 32400000, range_end = 36000000\<rparr>,
       \<lparr>range_start = 37800000, range_end = 61200000\<rparr>]"
    by (simp add: findFreeSlots_def setHours_def)
  have "durationStr \<lparr>range_start = 32400000, range_end = 36000000\<rparr> =
      durationSpec \<lparr>range_start = 32400000, range_end = 36000000\<rparr>"
    using duration_string [of "\<lparr>range_start = 32400000, range_end = 36000000\<rparr>" ?slots 0 86399999 9 17]
    by (simp add: out)
  moreover have "durationStr \<lparr>range_start = 37800000, range_end = 46800000\<rparr> =
      durationSpec \<lparr>range_start = 37800000, range_end = 46800000\<rparr>"
    using duration_string [of "\<lparr>range_start = 37800000, range_end = 46800000\<rparr>"]
    by simp
  moreover have "durationStr \<lparr>range_start = 32400000, range_end = 36000000\<rparr> = ''1h''"
    "durationStr \<lparr>range_start = 37800000, range_end = 46800000\<rparr> = ''2h 30m''"
    by (simp_all add: durationStr_int js_rem_def show_int_def digit_def)
  ultimately show ?thesis
    by simp
qed

subsection \<open>Reading the busy summaries back\<close>

lemma digitValue_digit: "0 \<le> n \<Longrightarrow> n \<le> 9 \<Longrightarrow> digitValue (digit n) = n"
proof -
  assume "0 \<le> n" "n \<le> 9"
  then have "n \<in> set [0..9]"
    by simp
  also have "[0..9] = [0, 1, 2, 3, 4, 5, 6, 7, 8, 9 :: int]"
    by (simp add: upto_rec1)
  finally show ?thesis
    by (auto simp: digit_def digitValue_def)
qed

lemma minutesOf_formatTime:
  "minutesOf (formatTime t) = (t div 3600000 mod 24) * 60 + t div 60000 mod 60"
proof -
  define a where "a = t div 3600000 mod 24"
  define b where "b = t div 60000 mod 60"
  have ab: "0 \<le> a" "a < 24" "0 \<le> b" "b < 60"
    by (simp_all add: a_def b_def)
  have ft: "formatTime t =
      [digit (a div 10 mod 10), digit (a mod 10), CHR '':'',
       digit (b div 10 mod 10), digit (b mod 10)]"
    by (simp add: formatTime_def two_digit_def a_def b_def)
  have dv: "digitValue (digit (a div 10 mod 10)) = a div 10 mod 10"
    "digitValue (digit (a mod 10)) = a mod 10"
    "digitValue (digit (b div 10 mod 10)) = b div 10 mod 10"
    "digitValue (digit (b mod 10)) = b mod 10"
    by (simp_all add: digitValue_digit)
  have "a div 10 mod 10 = a div 10" "b div 10 mod 10 = b div 10"
    using ab by (simp_all add: mod_pos_pos_trivial)
  then have val: "a div 10 mod 10 * 10 + a mod 10 = a" "b div 10 mod 10 * 10 + b mod 10 = b"
    by simp_all
  have "minutesOf (formatTime t) =
      (a div 10 mod 10 * 10 + a mod 10) * 60 + (b div 10 mod 10 * 10 + b mod 10)"
    unfolding ft by (simp add: minutesOf_def dv)
  then have "minutesOf (formatTime t) = a * 60 + b"
    by (simp only: val)
  then show ?thesis
    unfolding a_def b_def .
qed

lemma day_arith:
  fixes q r x h m :: int
  assumes "q * 24 + r = h" and "h * 60 + x = m"
  shows "q * 86400000 + (r * 60 + x) * 60000 = m * 60000"
  unfolding assms [symmetric] by (simp add: algebra_simps)

lemma decode_formatTime:
  assumes "t div 86400000 = d div 86400000"
  shows "setHours d 0 0 0 0 + minutesOf (formatTime t) * 60000 = t div 60000 * 60000"
proof -
  define m where "m = t div 60000"
  have h: "t div 3600000 = m div 60"
    unfolding m_def by (simp add: div_mult2_eq [symmetric])
  have D: "d div 86400000 = m div 60 div 24"
    unfolding m_def assms [symmetric] by (simp add: div_mult2_eq [symmetric])
  have "m div 60 div 24 * 86400000 + (m div 60 mod 24 * 60 + m mod 60) * 60000 = m * 60000"
    by (rule day_arith [of _ _ "m div 60"]) simp_all
  then show ?thesis
    unfolding minutesOf_formatTime setHours_def h D m_def [symmetric]
    by simp
qed

lemma sweep_endpoints:
  "r \<in> set (sweep cur we xs) \<Longrightarrow>
     (range_start r = cur \<or> range_start r \<in> range_end ` set xs) \<and>
     (range_end r = we \<or> range_end r \<in> range_start ` set xs)"
proof (induction xs arbitrary: cur)
  case Nil
  then show ?case by (auto split: if_splits)
next
  case (Cons x xs)
  from Cons.prems consider
    (push) "range_start x > cur" "r = \<lparr>range_start = cur, range_end = range_start x\<rparr>"
    | (rest) "r \<in> set (sweep (max cur (range_end x)) we xs)"
    by (auto split: if_splits)
  then show ?case
  proof cases
    case push
    then show ?thesis by simp
  next
    case rest
    from Cons.IH [OF rest] show ?thesis
      by (auto simp: max_def split: if_splits)
  qed
qed

lemma sweep_endpoints_pred:
  assumes "P cur" and "P we" and "\<forall>x\<in>set xs. P (range_start x) \<and> P (range_end x)"
    and "r \<in> set (sweep cur we xs)"
  shows "P (range_start r) \<and> P (range_end r)"
  using sweep_endpoints [OF assms(4)] assms(1-3) by auto

lemma sweep_starts_sorted: "sorted (map range_start (sweep cur we xs))"
proof (induction xs arbitrary: cur)
  case Nil
  show ?case by simp
next
  case (Cons x xs)
  have "cur \<le> range_start b" if "b \<in> set (sweep (max cur (range_end x)) we xs)" for b
    using sweep_bounds [OF that] by simp
  then show ?case
    using Cons.IH [of "max cur (range_end x)"] by auto
qed

lemma findFreeSlots_starts_sorted:
  "sorted (map range_start (findFreeSlots slots d dayEnd h1 h2))"
  unfolding findFreeSlots_sweep by (rule sweep_starts_sorted)

lemma busyGaps_starts_sorted: "sorted (map range_start (busyGaps items d h1 h2))"
  unfolding busyGaps_sweep by (rule sweep_starts_sorted)

lemma busyGaps_endpoints_pred:
  assumes "P (setHours d h1 0 0 0)" and "P (setHours d h2 0 0 0)"
    and "\<forall>i\<in>set items. item_status i = ''Free'' \<longrightarrow>
           P (dateTime (item_start i)) \<and> P (dateTime (item_end i))"
    and "g \<in> set (busyGaps items d h1 h2)"
  shows "P (range_start g) \<and> P (range_end g)"
proof (rule sweep_endpoints_pred [where P = P])
  show "g \<in> set (sweep (setHours d h1 0 0 0) (setHours d h2 0 0 0)
      (map (clip (setHours d h1 0 0 0) (setHours d h2 0 0 0))
         (freeSlotsOf items (setHours d h1 0 0 0) (setHours d h2 0 0 0))))"
    using assms(4) by (simp only: busyGaps_sweep)
  show "\<forall>x\<in>set (map (clip (setHours d h1 0 0 0) (setHours d h2 0 0 0))
         (freeSlotsOf items (setHours d h1 0 0 0) (setHours d h2 0 0 0))).
      P (range_start x) \<and> P (range_end x)"
    using assms(1-3) by (auto simp: freeSlotsOf_def clip_def)
qed (use assms in simp_all)

lemma findFreeSlots_endpoints_pred:
  assumes "P (setHours d h1 0 0 0)" and "P (setHours d h2 0 0 0)"
    and "\<forall>s\<in>set slots. slot_status s \<noteq> ''Free'' \<longrightarrow> P (slot_start s) \<and> P (slot_end s)"
    and "r \<in> set (findFreeSlots slots d dayEnd h1 h2)"
  shows "P (range_start r) \<and> P (range_end r)"
proof (rule sweep_endpoints_pred [where P = P])
  show "r \<in> set (sweep (setHours d h1 0 0 0) (setHours d h2 0 0 0)
       (map (clip (setHours d h1 0 0 0) (setHours d h2 0 0 0))
          (filter (\<lambda>b. \<not> (range_end b \<le> setHours d h1 0 0 0 \<or>
                           range_start b \<ge> setHours d h2 0 0 0))
             (busySlotsOf slots))))"
    using assms(4) by (simp only: findFreeSlots_sweep)
  show "\<forall>x\<in>set (map (clip (setHours d h1 0 0 0) (setHours d h2 0 0 0))
          (filter (\<lambda>b. \<not> (range_end b \<le> setHours d h1 0 0 0 \<or>
                           range_start b \<ge> setHours d h2 0 0 0))
             (busySlotsOf slots))).
      P (range_start x) \<and> P (range_end x)"
    using assms(1-3) by (auto simp: busySlotsOf_def clip_def)
qed (use assms in simp_all)

lemma busyGaps_in_window:
  assumes "g \<in> set (busyGaps items d h1 h2)"
  shows "setHours d h1 0 0 0 \<le> range_start g \<and> range_start g \<le> setHours d h2 0 0 0 \<and>
         setHours d h1 0 0 0 \<le> range_end g \<and> range_end g \<le> setHours d h2 0 0 0"
proof -
  define ws where "ws = setHours d h1 0 0 0"
  define we where "we = setHours d h2 0 0 0"
  define xs where "xs = map (clip ws we) (freeSlotsOf items ws we)"
  have g: "g \<in> set (sweep ws we xs)"
    using assms by (simp add: busyGaps_sweep ws_def we_def xs_def)
  have lt: "ws < we"
  proof (rule ccontr)
    assume "\<not> ws < we"
    then have "sweep ws we xs = []"
      by (intro sweep_nil) (auto simp: xs_def clip_def freeSlotsOf_def)
    with g show False by simp
  qed
  have "\<forall>x\<in>set xs. (ws \<le> range_start x \<and> range_start x \<le> we) \<and>
      (ws \<le> range_end x \<and> range_end x \<le> we)"
    using lt by (auto simp: xs_def clip_def freeSlotsOf_def)
  then have "(ws \<le> range_start g \<and> range_start g \<le> we) \<and> (ws \<le> range_end g \<and> range_end g \<le> we)"
    using lt g by (intro sweep_endpoints_pred [where P = "\<lambda>t. ws \<le> t \<and> t \<le> we" and cur = ws and we = we and xs = xs]) auto
  then show ?thesis
    by (simp add: ws_def we_def)
qed

lemma same_day:
  assumes "0 \<le> h1" and "h2 \<le> 23"
    and "setHours d h1 0 0 0 \<le> t" and "t \<le> setHours d h2 0 0 0"
  shows "t div 86400000 = d div 86400000"
proof -
  define r where "r = t - d div 86400000 * 86400000"
  have r: "0 \<le> r" "r < 86400000"
    using assms by (simp_all add: r_def setHours_def)
  have "t = r + 86400000 * (d div 86400000)"
    by (simp add: r_def)
  then have "t div 86400000 = d div 86400000 + r div 86400000"
    by (metis add.commute div_mult_self2 zero_neq_numeral)
  then show ?thesis
    using r by (simp add: div_pos_pos_trivial)
qed

lemma summaryRange_busySummary:
  assumes "0 \<le> h1" and "h2 \<le> 23" and "g \<in> set (busyGaps items d h1 h2)"
  shows "summaryRange d (busySummary g) = floorMinute g"
proof -
  note w = busyGaps_in_window [OF assms(3)]
  have "range_start g div 86400000 = d div 86400000" "range_end g div 86400000 = d div 86400000"
    using w assms(1,2) by (auto intro: same_day)
  then show ?thesis
    by (simp add: summaryRange_def busySummary_def floorMinute_def decode_formatTime)
qed

lemma summaries_floor:
  assumes "0 \<le> h1" and "h2 \<le> 23"
  shows "map (summaryRange d) (findBusyFromFreeSlots items d h1 h2) =
     map floorMinute (busyGaps items d h1 h2)"
  unfolding findBusyFromFreeSlots_busyGaps
  using summaryRange_busySummary [OF assms] by simp

lemma summaries_exact:
  assumes "0 \<le> h1" and "h2 \<le> 23" and "wholeMinuteItems items"
  shows "map (summaryRange d) (findBusyFromFreeSlots items d h1 h2) = busyGaps items d h1 h2"
proof -
  have "floorMinute g = g" if "g \<in> set (busyGaps items d h1 h2)" for g
  proof -
    have "60000 dvd range_start g \<and> 60000 dvd range_end g"
      using that assms(3)
      by (intro busyGaps_endpoints_pred [where P = "\<lambda>t. 60000 dvd t" and items = items and d = d and ?h1.0 = h1 and ?h2.0 = h2])
        (auto simp: setHours_def wholeMinuteItems_def)
    then show ?thesis
      by (simp add: floorMinute_def)
  qed
  then show ?thesis
    unfolding summaries_floor [OF assms(1,2)] by (simp add: map_idI)
qed

subsection \<open>Sorted and disjoint results\<close>

lemma ordered_no_overlap:
  "sorted_wrt (\<lambda>a b. range_end a \<le> range_start b) rs \<Longrightarrow>
     sorted_wrt (\<lambda>a b. \<not> overlaps a b) rs"
  by (rule sorted_wrt_mono_rel) (auto simp: overlaps_def)

lemma floorMinute_ordered:
  "sorted_wrt (\<lambda>a b. range_end a \<le> range_start b) gs \<Longrightarrow>
     sorted_wrt (\<lambda>a b. range_end a \<le> range_start b) (map floorMinute gs)"
  unfolding sorted_wrt_map
  by (rule sorted_wrt_mono_rel) (auto simp: floorMinute_def intro: zdiv_mono1)

lemma floorMinute_starts_sorted:
  "sorted (map range_start gs) \<Longrightarrow> sorted (map range_start (map floorMinute gs))"
  unfolding sorted_map sorted_wrt_map
  by (rule sorted_wrt_mono_rel) (auto simp: floorMinute_def intro: zdiv_mono1)

lemma findFreeSlots_ordered:
  assumes "properSlots slots"
  shows "sorted_wrt (\<lambda>a b. range_end a \<le> range_start b) (findFreeSlots slots d dayEnd h1 h2)"
proof -
  define ws where "ws = setHours d h1 0 0 0"
  define we where "we = setHours d h2 0 0 0"
  define xs where "xs = map (clip ws we)
          (filter (\<lambda>b. \<not> (range_end b \<le> ws \<or> range_start b \<ge> we)) (busySlotsOf slots))"
  have out: "findFreeSlots slots d dayEnd h1 h2 = sweep ws we xs"
    by (simp add: findFreeSlots_sweep ws_def we_def xs_def)
  have wf: "\<forall>b\<in>set (busySlotsOf slots). range_start b \<le> range_end b"
    using assms by (auto simp: busySlotsOf_def properSlots_def)
  show ?thesis
  proof (cases "ws < we")
    case True
    have "sorted (map range_start xs)"
      unfolding xs_def by (intro sorted_map_clip sorted_filter_starts sorted_busySlotsOf)
    moreover have "\<forall>x\<in>set xs. range_start x \<le> range_end x"
      using True wf by (auto simp: xs_def clip_def)
    ultimately show ?thesis
      unfolding out by (rule sweep_ordered)
  next
    case False
    then have "sweep ws we xs = []"
      by (intro sweep_nil) (auto simp: xs_def clip_def)
    then show ?thesis
      by (simp add: out)
  qed
qed

lemma busyGaps_ordered:
  assumes "properItems items"
  shows "sorted_wrt (\<lambda>a b. range_end a \<le> range_start b) (busyGaps items d h1 h2)"
proof -
  define ws where "ws = setHours d h1 0 0 0"
  define we where "we = setHours d h2 0 0 0"
  define xs where "xs = map (clip ws we) (freeSlotsOf items ws we)"
  have out: "busyGaps items d h1 h2 = sweep ws we xs"
    by (simp add: busyGaps_sweep ws_def we_def xs_def)
  have wf: "\<forall>b\<in>set (freeSlotsOf items ws we). range_start b \<le> range_end b"
    using assms by (auto simp: freeSlotsOf_def properItems_def)
  show ?thesis
  proof (cases "ws < we")
    case True
    have "sorted (map range_start xs)"
      unfolding xs_def by (intro sorted_map_clip sorted_freeSlotsOf)
    moreover have "\<forall>x\<in>set xs. range_start x \<le> range_end x"
      using True wf by (auto simp: xs_def clip_def freeSlotsOf_def)
    ultimately show ?thesis
      unfolding out by (rule sweep_ordered)
  next
    case False
    then have "sweep ws we xs = []"
      by (intro sweep_nil) (auto simp: xs_def clip_def freeSlotsOf_def)
    then show ?thesis
      by (simp add: out)
  qed
qed

lemma placeRuns_lower:
  assumes "0 \<le> w" and "b \<in> set (placeRuns s w i rs)"
  shows "s + int i * w * 60000 \<le> block_start b"
  using assms(2)
proof (induction rs arbitrary: i)
  case Nil
  then show ?case by simp
next
  case (Cons r rs)
  obtain st n where r: "r = (st, n)" by (cases r)
  have step: "int i * w * 60000 \<le> int (i + n) * w * 60000"
    using assms(1) by (simp add: mult_right_mono)
  from Cons.prems consider
    (head) "b = \<lparr>block_start = s + int i * w * 60000, block_end = s + int (i + n) * w * 60000,
               block_status = st\<rparr>"
    | (tail) "b \<in> set (placeRuns s w (i + n) rs)"
    by (auto simp: r split: if_splits)
  then show ?case
  proof cases
    case head
    then show ?thesis by simp
  next
    case tail
    from Cons.IH [OF tail] step show ?thesis by simp
  qed
qed

lemma placeRuns_upper:
  assumes "w \<le> 0" and "b \<in> set (placeRuns s w i rs)"
  shows "block_end b \<le> s + int i * w * 60000"
  using assms(2)
proof (induction rs arbitrary: i)
  case Nil
  then show ?case by simp
next
  case (Cons r rs)
  obtain st n where r: "r = (st, n)" by (cases r)
  have step: "int (i + n) * w * 60000 \<le> int i * w * 60000"
    using assms(1) by (simp add: mult_right_mono_neg)
  from Cons.prems consider
    (head) "b = \<lparr>block_start = s + int i * w * 60000, block_end = s + int (i + n) * w * 60000,
               block_status = st\<rparr>"
    | (tail) "b \<in> set (placeRuns s w (i + n) rs)"
    by (auto simp: r split: if_splits)
  then show ?case
  proof cases
    case head
    with step show ?thesis by simp
  next
    case tail
    from Cons.IH [OF tail] step show ?thesis by simp
  qed
qed

lemma placeRuns_ordered:
  assumes "0 \<le> w"
  shows "sorted_wrt (\<lambda>a b. range_end a \<le> range_start b) (map blockRange (placeRuns s w i rs))"
proof (induction rs arbitrary: i)
  case Nil
  show ?case by simp
next
  case (Cons r rs)
  obtain st n where r: "r = (st, n)" by (cases r)
  have "s + int (i + n) * w * 60000 \<le> block_start b" if "b \<in> set (placeRuns s w (i + n) rs)" for b
    using placeRuns_lower [OF assms that] by simp
  then show ?case
    using Cons.IH [of "i + n"] by (auto simp: r blockRange_def)
qed

lemma placeRuns_descending:
  assumes "w \<le> 0"
  shows "sorted_wrt (\<lambda>a b. range_end b \<le> range_start a) (map blockRange (placeRuns s w i rs))"
proof (induction rs arbitrary: i)
  case Nil
  show ?case by simp
next
  case (Cons r rs)
  obtain st n where r: "r = (st, n)" by (cases r)
  have step: "int (i + n) * w * 60000 \<le> int i * w * 60000"
    using assms by (simp add: mult_right_mono_neg)
  have "block_end b \<le> s + int i * w * 60000" if "b \<in> set (placeRuns s w (i + n) rs)" for b
    using placeRuns_upper [OF assms that] step by simp
  then show ?case
    using Cons.IH [of "i + n"] by (auto simp: r blockRange_def)
qed

lemma parseAvailabilityView_no_overlap:
  "sorted_wrt (\<lambda>a b. \<not> overlaps a b) (map blockRange (parseAvailabilityView view s w))"
proof (cases "0 \<le> w")
  case True
  then show ?thesis
    unfolding parseAvailabilityView_decode decodeAvailabilityView_def
    by (intro ordered_no_overlap placeRuns_ordered)
next
  case False
  then have "sorted_wrt (\<lambda>a b. range_end b \<le> range_start a)
      (map blockRange (placeRuns s w 0 (runLengths (map statusOf view))))"
    by (intro placeRuns_descending) simp
  then show ?thesis
    unfolding parseAvailabilityView_decode decodeAvailabilityView_def
    by (rule sorted_wrt_mono_rel [rotated]) (auto simp: overlaps_def)
qed

lemma parseAvailabilityView_starts_sorted:
  assumes "0 \<le> w"
  shows "sorted (map range_start (map blockRange (parseAvailabilityView view s w)))"
proof -
  have "sorted (map range_start (map blockRange (placeRuns s w i rs)))" for i rs
  proof (induction rs arbitrary: i)
    case Nil
    show ?case by simp
  next
    case (Cons r rs)
    obtain st n where r: "r = (st, n)" by (cases r)
    have step: "int i * w * 60000 \<le> int (i + n) * w * 60000"
      using assms by (simp add: mult_right_mono)
    have "s + int i * w * 60000 \<le> block_start b" if "b \<in> set (placeRuns s w (i + n) rs)" for b
      using placeRuns_lower [OF assms that] step by simp
    then show ?case
      using Cons.IH [of "i + n"] by (auto simp: r blockRange_def)
  qed
  then show ?thesis
    by (simp only: parseAvailabilityView_decode decodeAvailabilityView_def)
qed

text \<open>
  Claim C6. The three results are sorted by start ascending and contain no two overlapping
  intervals, also when the input intervals overlap or are out of order. In detail: the
  starts of the slots of \<^verbatim>\<open>findFreeSlots\<close> ascend for every list of slots, and no two of
  its slots overlap when no slot other than \<^verbatim>\<open>Free\<close> ends before it starts. The busy
  summaries that \<^verbatim>\<open>findBusyFromFreeSlots\<close> returns, read as the \<^verbatim>\<open>HH:MM\<close> intervals of
  the day, are the gaps of its sweep with both ends rounded down to the minute; they have
  ascending starts for every list of items and every window with hours from 0 to 23, and
  no two of them overlap when no \<^verbatim>\<open>Free\<close> item ends before it starts. No
  two blocks of \<^verbatim>\<open>parseAvailabilityView\<close> overlap, whatever the bucket width, and their
  starts ascend when the width is not negative (its one call passes 30).
\<close>

theorem outputs_sorted_and_disjoint:
  "sorted (map range_start (findFreeSlots slots dayStart dayEnd workStart workEnd)) \<and>
   (properSlots slots \<longrightarrow>
      sorted_wrt (\<lambda>a b. \<not> overlaps a b)
        (findFreeSlots slots dayStart dayEnd workStart workEnd)) \<and>
   (0 \<le> workStart \<and> workEnd \<le> 23 \<longrightarrow>
      map (summaryRange dayStart)
        (findBusyFromFreeSlots freeItems dayStart workStart workEnd) =
        map floorMinute (busyGaps freeItems dayStart workStart workEnd) \<and>
      sorted (map range_start
        (map (summaryRange dayStart)
           (findBusyFromFreeSlots freeItems dayStart workStart workEnd))) \<and>
      (properItems freeItems \<longrightarrow>
         sorted_wrt (\<lambda>a b. \<not> overlaps a b)
           (map (summaryRange dayStart)
              (findBusyFromFreeSlots freeItems dayStart workStart workEnd)))) \<and>
   sorted_wrt (\<lambda>a b. \<not> overlaps a b)
     (map blockRange (parseAvailabilityView view startDate intervalMinutes)) \<and>
   (0 \<le> intervalMinutes \<longrightarrow>
      sorted (map range_start
        (map blockRange (parseAvailabilityView view startDate intervalMinutes))))"
proof (intro conjI impI)
  show "sorted (map range_start (findFreeSlots slots dayStart dayEnd workStart workEnd))"
    by (rule findFreeSlots_starts_sorted)
  show "sorted_wrt (\<lambda>a b. \<not> overlaps a b)
      (findFreeSlots slots dayStart dayEnd workStart workEnd)" if "properSlots slots"
    using that by (intro ordered_no_overlap findFreeSlots_ordered)
  show "sorted_wrt (\<lambda>a b. \<not> overlaps a b)
     (map blockRange (parseAvailabilityView view startDate intervalMinutes))"
    by (rule parseAvailabilityView_no_overlap)
  show "sorted (map range_start
        (map blockRange (parseAvailabilityView view startDate intervalMinutes)))"
    if "0 \<le> intervalMinutes"
    using that by (rule parseAvailabilityView_starts_sorted)
next
  assume h: "0 \<le> workStart \<and> workEnd \<le> 23"
  then show fl: "map (summaryRange dayStart)
      (findBusyFromFreeSlots freeItems dayStart workStart workEnd) =
      map floorMinute (busyGaps freeItems dayStart workStart workEnd)"
    by (intro summaries_floor) simp_all
  show "sorted (map range_start
        (map (summaryRange dayStart)
           (findBusyFromFreeSlots freeItems dayStart workStart workEnd)))"
    unfolding fl by (intro floorMinute_starts_sorted busyGaps_starts_sorted)
  show "sorted_wrt (\<lambda>a b. \<not> overlaps a b)
      (map (summaryRange dayStart)
         (findBusyFromFreeSlots freeItems dayStart workStart workEnd))"
    if "properItems freeItems"
    unfolding fl using that by (intro ordered_no_overlap floorMinute_ordered busyGaps_ordered)
qed

theorem outputs_sorted_and_disjoint_witness:
  "sorted_wrt (\<lambda>a b. \<not> overlaps a b)
     (findFreeSlots
        [\<lparr>slot_start = 46800000, slot_end = 50400000, slot_status = ''Busy'', slot_subject = None\<rparr>,
         \<lparr>slot_start = 36000000, slot_end = 48600000, slot_status = ''Tentative'',
          slot_subject = None\<rparr>] 0 86399999 9 17) \<and>
   map (summaryRange 0)
     (findBusyFromFreeSlots
        [\<lparr>item_status = ''Free'',
          item_start = \<lparr>dateTime = 46800000, timeZone = ''UTC''\<rparr>,
          item_end = \<lparr>dateTime = 50400000, timeZone = ''UTC''\<rparr>,
          item_subject = None\<rparr>,
         \<lparr>item_status = ''Free'',
          item_start = \<lparr>dateTime = 36000000, timeZone = ''UTC''\<rparr>,
          item_end = \<lparr>dateTime = 48600000, timeZone = ''UTC''\<rparr>,
          item_subject = None\<rparr>] 0 9 17) =
     [\<lparr>range_start = 32400000, range_end = 36000000\<rparr>,
      \<lparr>range_start = 50400000, range_end = 61200000\<rparr>] \<and>
   sorted_wrt (\<lambda>a b. \<not> overlaps a b)
     [\<lparr>range_start = 32400000, range_end = 36000000\<rparr>,
      \<lparr>range_start = 50400000, range_end = 61200000\<rparr>] \<and>
   sorted (map range_start (map blockRange (parseAvailabilityView ''0022110'' 1704067200000 30)))"
proof -
  let ?slots = "[\<lparr>slot_start = 46800000, slot_end = 50400000, slot_status = ''Busy'', slot_subject = None\<rparr>,
         \<lparr>slot_start = 36000000, slot_end = 48600000, slot_status = ''Tentative'',
          slot_subject = None\<rparr>]"
  let ?items = "[\<lparr>item_status = ''Free'',
          item_start = \<lparr>dateTime = 46800000, timeZone = ''UTC''\<rparr>,
          item_end = \<lparr>dateTime = 50400000, timeZone = ''UTC''\<rparr>,
          item_subject = None\<rparr>,
         \<lparr>item_status = ''Free'',
          item_start = \<lparr>dateTime = 36000000, timeZone = ''UTC''\<rparr>,
          item_end = \<lparr>dateTime = 48600000, timeZone = ''UTC''\<rparr>,
          item_subject = None\<rparr>]"
  have a: "properSlots ?slots"
    by (simp add: properSlots_def)
  have b: "properItems ?items"
    by (simp add: properItems_def)
  have c: "(0::int) \<le> 9 \<and> (17::int) \<le> 23" "(0::int) \<le> 30"
    by simp_all
  have out: "map (summaryRange 0) (findBusyFromFreeSlots ?items 0 9 17) =
     [\<lparr>range_start = 32400000, range_end = 36000000\<rparr>,
      \<lparr>range_start = 50400000, range_end = 61200000\<rparr>]"
    by (simp add: findBusyFromFreeSlots_def freeSlotsOf_def setHours_def formatTime_def
        two_digit_def digit_def summaryRange_def minutesOf_def digitValue_def)
  note t = outputs_sorted_and_disjoint [of ?slots 0 86399999 9 17 ?items "''0022110''" 1704067200000 30]
  from t a have "sorted_wrt (\<lambda>a b. \<not> overlaps a b) (findFreeSlots ?slots 0 86399999 9 17)"
    by blast
  moreover from t b c have "sorted_wrt (\<lambda>a b. \<not> overlaps a b)
      (map (summaryRange 0) (findBusyFromFreeSlots ?items 0 9 17))"
    by blast
  moreover from t c have "sorted (map range_start
      (map blockRange (parseAvailabilityView ''0022110'' 1704067200000 30)))"
    by blast
  ultimately show ?thesis
    unfolding out by simp
qed

subsection \<open>Complementarity\<close>

lemma busyGaps_nonempty:
  "r \<in> set (busyGaps items d h1 h2) \<Longrightarrow> range_start r < range_end r"
  unfolding busyGaps_sweep by (rule sweep_bounds [THEN conjunct2])

lemma overlaps_points:
  assumes "range_start a < range_end a" and "range_start b < range_end b" and "overlaps a b"
  shows "points a \<inter> points b \<noteq> {}"
proof -
  have "max (range_start a) (range_start b) \<in> points a \<inter> points b"
    using assms by (auto simp: points_def overlaps_def)
  then show ?thesis by blast
qed

lemma disjoint_covers_no_overlap:
  assumes "cover rs \<inter> cover qs = {}"
    and "\<forall>r\<in>set rs. range_start r < range_end r" and "\<forall>q\<in>set qs. range_start q < range_end q"
    and "r \<in> set rs" and "q \<in> set qs"
  shows "\<not> overlaps r q"
proof
  assume "overlaps r q"
  then have "points r \<inter> points q \<noteq> {}"
    using assms(2-5) by (intro overlaps_points) auto
  moreover have "points r \<subseteq> cover rs" "points q \<subseteq> cover qs"
    using assms(4,5) by (auto simp: cover_def)
  ultimately show False
    using assms(1) by blast
qed

lemma complementary_covers:
  assumes "freeTime items \<inter> workWindow d h1 h2 = workWindow d h1 h2 - busyTime slots"
  shows "cover (findFreeSlots slots d dayEnd h1 h2 @ busyGaps items d h1 h2) = workWindow d h1 h2"
    and "cover (findFreeSlots slots d dayEnd h1 h2) \<inter> cover (busyGaps items d h1 h2) = {}"
  using assms unfolding cover_append findFreeSlots_cover busyGaps_cover by blast+

lemma complementary_tiles:
  assumes "freeTime items \<inter> workWindow d h1 h2 = workWindow d h1 h2 - busyTime slots"
    and "properSlots slots" and "properItems items"
  shows "tiles (workWindow d h1 h2) (findFreeSlots slots d dayEnd h1 h2 @ busyGaps items d h1 h2)"
proof -
  have "sorted_wrt (\<lambda>a b. \<not> overlaps a b) (findFreeSlots slots d dayEnd h1 h2)"
    using assms(2) by (intro ordered_no_overlap findFreeSlots_ordered)
  moreover have "sorted_wrt (\<lambda>a b. \<not> overlaps a b) (busyGaps items d h1 h2)"
    using assms(3) by (intro ordered_no_overlap busyGaps_ordered)
  moreover have "\<not> overlaps r q"
    if "r \<in> set (findFreeSlots slots d dayEnd h1 h2)" "q \<in> set (busyGaps items d h1 h2)" for r q
    using complementary_covers(2) [OF assms(1)] _ _ that
  proof (rule disjoint_covers_no_overlap)
    show "\<forall>r\<in>set (findFreeSlots slots d dayEnd h1 h2). range_start r < range_end r"
      using findFreeSlots_nonempty by blast
    show "\<forall>q\<in>set (busyGaps items d h1 h2). range_start q < range_end q"
      using busyGaps_nonempty by blast
  qed
  ultimately show ?thesis
    using complementary_covers(1) [OF assms(1)] by (simp add: tiles_def sorted_wrt_append)
qed

text \<open>
  Claim C4, as amended. Let a list of slots and a list of schedule items describe the same
  day over the same work window, with hours from 0 to 23: inside the window, the time
  covered by the \<^verbatim>\<open>Free\<close> items is the time not covered by the slots that are not
  \<^verbatim>\<open>Free\<close>; no interval ends before it starts; and the \<^verbatim>\<open>Free\<close> items start and end on
  whole minutes. Then the free intervals that \<^verbatim>\<open>findFreeSlots\<close> returns and the busy
  intervals that \<^verbatim>\<open>findBusyFromFreeSlots\<close> returns, read as \<^verbatim>\<open>HH:MM\<close> on that day, tile
  the window: together they cover it exactly and no two of them overlap.
\<close>

theorem free_and_busy_tile_the_window:
  assumes "freeTime freeItems \<inter> workWindow dayStart workStart workEnd =
           workWindow dayStart workStart workEnd - busyTime slots"
    and "properSlots slots" and "properItems freeItems" and "wholeMinuteItems freeItems"
    and "0 \<le> workStart" and "workEnd \<le> 23"
  shows "tiles (workWindow dayStart workStart workEnd)
           (findFreeSlots slots dayStart dayEnd workStart workEnd @
            map (summaryRange dayStart)
              (findBusyFromFreeSlots freeItems dayStart workStart workEnd))"
  unfolding summaries_exact [OF assms(5,6,4)]
  using assms(1-3) by (rule complementary_tiles)

theorem free_and_busy_tile_the_window_witness:
  "tiles (workWindow 0 9 17)
     (findFreeSlots
        [\<lparr>slot_start = 36000000, slot_end = 37800000, slot_status = ''Busy'', slot_subject = None\<rparr>,
         \<lparr>slot_start = 46800000, slot_end = 50400000, slot_status = ''Tentative'',
          slot_subject = None\<rparr>] 0 86399999 9 17 @
      map (summaryRange 0)
        (findBusyFromFreeSlots
           [\<lparr>item_status = ''Free'',
             item_start = \<lparr>dateTime = 32400000, timeZone = ''UTC''\<rparr>,
             item_end = \<lparr>dateTime = 36000000, timeZone = ''UTC''\<rparr>,
             item_subject = None\<rparr>,
            \<lparr>item_status = ''Free'',
             item_start = \<lparr>dateTime = 37800000, timeZone = ''UTC''\<rparr>,
             item_end = \<lparr>dateTime = 46800000, timeZone = ''UTC''\<rparr>,
             item_subject = None\<rparr>,
            \<lparr>item_status = ''Free'',
             item_start = \<lparr>dateTime = 50400000, timeZone = ''UTC''\<rparr>,
             item_end = \<lparr>dateTime = 61200000, timeZone = ''UTC''\<rparr>,
             item_subject = None\<rparr>] 0 9 17)) \<and>
   findBusyFromFreeSlots
     [\<lparr>item_status = ''Free'',
       item_start = \<lparr>dateTime = 32400000, timeZone = ''UTC''\<rparr>,
       item_end = \<lparr>dateTime = 36000000, timeZone = ''UTC''\<rparr>,
       item_subject = None\<rparr>,
      \<lparr>item_status = ''Free'',
       item_start = \<lparr>dateTime = 37800000, timeZone = ''UTC''\<rparr>,
       item_end = \<lparr>dateTime = 46800000, timeZone = ''UTC''\<rparr>,
       item_subject = None\<rparr>,
      \<lparr>item_status = ''Free'',
       item_start = \<lparr>dateTime = 50400000, timeZone = ''UTC''\<rparr>,
       item_end = \<lparr>dateTime = 61200000, timeZone = ''UTC''\<rparr>,
       item_subject = None\<rparr>] 0 9 17 =
     [\<lparr>startTime = ''10:00'', endTime = ''10:30'', status = ''Busy''\<rparr>,
      \<lparr>startTime = ''13:00'', endTime = ''14:00'', status = ''Busy''\<rparr>]"
proof -
  let ?slots = "[\<lparr>slot_start = 36000000, slot_end = 37800000, slot_status = ''Busy'', slot_subject = None\<rparr>,
         \<lparr>slot_start = 46800000, slot_end = 50400000, slot_status = ''Tentative'',
          slot_subject = None\<rparr>]"
  let ?items = "[\<lparr>item_status = ''Free'',
          item_start = \<lparr>dateTime = 32400000, timeZone = ''UTC''\<rparr>,
          item_end = \<lparr>dateTime = 36000000, timeZone = ''UTC''\<rparr>,
          item_subject = None\<rparr>,
         \<lparr>item_status = ''Free'',
          item_start = \<lparr>dateTime = 37800000, timeZone = ''UTC''\<rparr>,
          item_end = \<lparr>dateTime = 46800000, timeZone = ''UTC''\<rparr>,
          item_subject = None\<rparr>,
         \<lparr>item_status = ''Free'',
          item_start = \<lparr>dateTime = 50400000, timeZone = ''UTC''\<rparr>,
          item_end = \<lparr>dateTime = 61200000, timeZone = ''UTC''\<rparr>,
          item_subject = None\<rparr>]"
  have comp: "freeTime ?items \<inter> workWindow 0 9 17 = workWindow 0 9 17 - busyTime ?slots"
    by (auto simp: freeTime_def busyTime_def workWindow_def setHours_def)
  have a: "properSlots ?slots" "properItems ?items" "wholeMinuteItems ?items"
    by (simp_all add: properSlots_def properItems_def wholeMinuteItems_def)
  have h: "(0::int) \<le> 9" "(17::int) \<le> 23"
    by simp_all
  have out: "findBusyFromFreeSlots ?items 0 9 17 =
     [\<lparr>startTime = ''10:00'', endTime = ''10:30'', status = ''Busy''\<rparr>,
      \<lparr>startTime = ''13:00'', endTime = ''14:00'', status = ''Busy''\<rparr>]"
    by (simp add: findBusyFromFreeSlots_def freeSlotsOf_def setHours_def formatTime_def
        two_digit_def digit_def)
  show ?thesis
    using free_and_busy_tile_the_window [OF comp a h, of 86399999] out by simp
qed

text \<open>
  Without the whole minutes the claim fails, because \<^verbatim>\<open>formatTime\<close> prints no seconds:
  with one busy slot from 09:00:30 to 17:00 and the complementary free item from 09:00:00
  to 09:00:30, \<^verbatim>\<open>findFreeSlots\<close> returns 09:00:00 to 09:00:30 and
  \<^verbatim>\<open>findBusyFromFreeSlots\<close> returns 09:00 to 17:00, which overlaps it.
\<close>

theorem seconds_lost_tiling_counterexample:
  "properSlots
     [\<lparr>slot_start = 32430000, slot_end = 61200000, slot_status = ''Busy'', slot_subject = None\<rparr>] \<and>
   properItems
     [\<lparr>item_status = ''Free'',
       item_start = \<lparr>dateTime = 32400000, timeZone = ''UTC''\<rparr>,
       item_end = \<lparr>dateTime = 32430000, timeZone = ''UTC''\<rparr>,
       item_subject = None\<rparr>] \<and>
   freeTime
     [\<lparr>item_status = ''Free'',
       item_start = \<lparr>dateTime = 32400000, timeZone = ''UTC''\<rparr>,
       item_end = \<lparr>dateTime = 32430000, timeZone = ''UTC''\<rparr>,
       item_subject = None\<rparr>] \<inter> workWindow 0 9 17 =
   workWindow 0 9 17 -
   busyTime [\<lparr>slot_start = 32430000, slot_end = 61200000, slot_status = ''Busy'',
              slot_subject = None\<rparr>] \<and>
   findFreeSlots
     [\<lparr>slot_start = 32430000, slot_end = 61200000, slot_status = ''Busy'', slot_subject = None\<rparr>]
     0 86399999 9 17 =
     [\<lparr>range_start = 32400000, range_end = 32430000\<rparr>] \<and>
   findBusyFromFreeSlots
     [\<lparr>item_status = ''Free'',
       item_start = \<lparr>dateTime = 32400000, timeZone = ''UTC''\<rparr>,
       item_end = \<lparr>dateTime = 32430000, timeZone = ''UTC''\<rparr>,
       item_subject = None\<rparr>] 0 9 17 =
     [\<lparr>startTime = ''09:00'', endTime = ''17:00'', status = ''Busy''\<rparr>] \<and>
   \<not> tiles (workWindow 0 9 17)
       (findFreeSlots
          [\<lparr>slot_start = 32430000, slot_end = 61200000, slot_status = ''Busy'',
            slot_subject = None\<rparr>] 0 86399999 9 17 @
        map (summaryRange 0)
          (findBusyFromFreeSlots
             [\<lparr>item_status = ''Free'',
               item_start = \<lparr>dateTime = 32400000, timeZone = ''UTC''\<rparr>,
               item_end = \<lparr>dateTime = 32430000, timeZone = ''UTC''\<rparr>,
               item_subject = None\<rparr>] 0 9 17))"
proof -
  have free: "findFreeSlots
     [\<lparr>slot_start = 32430000, slot_end = 61200000, slot_status = ''Busy'', slot_subject = None\<rparr>]
     0 86399999 9 17 =
     [\<lparr>range_start = 32400000, range_end = 32430000\<rparr>]"
    by (simp add: findFreeSlots_def setHours_def)
  have busy: "findBusyFromFreeSlots
     [\<lparr>item_status = ''Free'',
       item_start = \<lparr>dateTime = 32400000, timeZone = ''UTC''\<rparr>,
       item_end = \<lparr>dateTime = 32430000, timeZone = ''UTC''\<rparr>,
       item_subject = None\<rparr>] 0 9 17 =
     [\<lparr>startTime = ''09:00'', endTime = ''17:00'', status = ''Busy''\<rparr>]"
    by (simp add: findBusyFromFreeSlots_def freeSlotsOf_def setHours_def formatTime_def
        two_digit_def digit_def)
  have comp: "freeTime
     [\<lparr>item_status = ''Free'',
       item_start = \<lparr>dateTime = 32400000, timeZone = ''UTC''\<rparr>,
       item_end = \<lparr>dateTime = 32430000, timeZone = ''UTC''\<rparr>,
       item_subject = None\<rparr>] \<inter> workWindow 0 9 17 =
   workWindow 0 9 17 -
   busyTime [\<lparr>slot_start = 32430000, slot_end = 61200000, slot_status = ''Busy'',
              slot_subject = None\<rparr>]"
    by (auto simp: freeTime_def busyTime_def workWindow_def setHours_def)
  have "\<not> tiles (workWindow 0 9 17)
      ([\<lparr>range_start = 32400000, range_end = 32430000\<rparr>] @
       map (summaryRange 0) [\<lparr>startTime = ''09:00'', endTime = ''17:00'', status = ''Busy''\<rparr>])"
    by (simp add: tiles_def overlaps_def summaryRange_def minutesOf_def digitValue_def
        setHours_def)
  then show ?thesis
    unfolding free busy using comp by (simp add: properSlots_def properItems_def)
qed

subsection \<open>Round trip\<close>

lemma freeTime_asFreeItem: "freeTime (map asFreeItem rs) = cover rs"
  by (simp add: freeTime_def cover_def points_def asFreeItem_def image_image)

lemma busyTime_in_window:
  assumes "withinWindow slots d h1 h2"
  shows "busyTime slots \<subseteq> workWindow d h1 h2"
  using assms by (fastforce simp: busyTime_def workWindow_def withinWindow_def)

lemma roundtrip_cover:
  assumes "withinWindow slots d h1 h2"
  shows "cover (busyGaps (map asFreeItem (findFreeSlots slots d dayEnd h1 h2)) d h1 h2) =
     busyTime slots"
  using busyTime_in_window [OF assms]
  unfolding busyGaps_cover freeTime_asFreeItem findFreeSlots_cover by blast

lemma roundtrip_chain:
  "chain (busyGaps (map asFreeItem (findFreeSlots slots d dayEnd h1 h2)) d h1 h2)"
proof (rule busyGaps_chain)
  show "\<forall>i\<in>set (map asFreeItem (findFreeSlots slots d dayEnd h1 h2)).
      item_status i = ''Free'' \<longrightarrow> dateTime (item_start i) < dateTime (item_end i)"
    using findFreeSlots_nonempty [of _ slots d dayEnd h1 h2] by (auto simp: asFreeItem_def)
qed

lemma roundtrip_whole_minutes:
  assumes "wholeMinuteSlots slots"
  shows "wholeMinuteItems (map asFreeItem (findFreeSlots slots d dayEnd h1 h2))"
proof -
  have "60000 dvd range_start r \<and> 60000 dvd range_end r"
    if "r \<in> set (findFreeSlots slots d dayEnd h1 h2)" for r
    using that assms
    by (intro findFreeSlots_endpoints_pred [where P = "\<lambda>t. 60000 dvd t" and slots = slots
          and d = d and dayEnd = dayEnd and ?h1.0 = h1 and ?h2.0 = h2])
      (auto simp: setHours_def wholeMinuteSlots_def)
  then show ?thesis
    by (auto simp: wholeMinuteItems_def asFreeItem_def)
qed

text \<open>
  Claim C5, as amended. For every list of slots whose slots other than \<^verbatim>\<open>Free\<close> lie
  within the work window (hours from 0 to 23), are sorted by start and pairwise disjoint,
  and start and end on whole minutes, the free slots of \<^verbatim>\<open>findFreeSlots\<close>, passed as
  \<^verbatim>\<open>Free\<close> items to \<^verbatim>\<open>findBusyFromFreeSlots\<close>, give back the original busy coverage:
  the busy intervals returned, read as \<^verbatim>\<open>HH:MM\<close> on that day, cover exactly the time the
  slots cover, and they are its maximal intervals. When moreover no slot is empty and each
  is separated from the next by a gap, they are the list of the original intervals.
\<close>

theorem roundtrip_reproduces_busy_coverage:
  assumes "withinWindow slots dayStart workStart workEnd"
    and "sortedDisjoint (map slotRange (filter (\<lambda>s. slot_status s \<noteq> ''Free'') slots))"
    and "wholeMinuteSlots slots"
    and "0 \<le> workStart" and "workEnd \<le> 23"
  shows "cover (map (summaryRange dayStart)
           (findBusyFromFreeSlots
              (map asFreeItem (findFreeSlots slots dayStart dayEnd workStart workEnd))
              dayStart workStart workEnd)) = busyTime slots \<and>
         maximalIntervalsOf (busyTime slots)
           (map (summaryRange dayStart)
              (findBusyFromFreeSlots
                 (map asFreeItem (findFreeSlots slots dayStart dayEnd workStart workEnd))
                 dayStart workStart workEnd)) \<and>
         (chain (map slotRange (filter (\<lambda>s. slot_status s \<noteq> ''Free'') slots)) \<longrightarrow>
            map (summaryRange dayStart)
              (findBusyFromFreeSlots
                 (map asFreeItem (findFreeSlots slots dayStart dayEnd workStart workEnd))
                 dayStart workStart workEnd) =
            map slotRange (filter (\<lambda>s. slot_status s \<noteq> ''Free'') slots))"
proof -
  let ?gaps = "busyGaps (map asFreeItem (findFreeSlots slots dayStart dayEnd workStart workEnd))
      dayStart workStart workEnd"
  let ?busy = "map slotRange (filter (\<lambda>s. slot_status s \<noteq> ''Free'') slots)"
  have out: "map (summaryRange dayStart)
      (findBusyFromFreeSlots
         (map asFreeItem (findFreeSlots slots dayStart dayEnd workStart workEnd))
         dayStart workStart workEnd) = ?gaps"
    using assms(4,5) roundtrip_whole_minutes [OF assms(3)] by (rule summaries_exact)
  have cov: "cover ?gaps = busyTime slots"
    using assms(1) by (rule roundtrip_cover)
  have ch: "chain ?gaps"
    by (rule roundtrip_chain)
  have "cover ?busy = busyTime slots"
    by (simp add: cover_def busyTime_def points_def slotRange_def image_image)
  then have "?gaps = ?busy" if "chain ?busy"
    using chain_unique [OF ch that] cov by simp
  then show ?thesis
    unfolding out using cov chain_maximal [OF ch] by simp
qed

theorem roundtrip_reproduces_busy_coverage_witness:
  "findBusyFromFreeSlots
     (map asFreeItem
        (findFreeSlots
           [\<lparr>slot_start = 36000000, slot_end = 37800000, slot_status = ''Busy'',
             slot_subject = None\<rparr>,
            \<lparr>slot_start = 46800000, slot_end = 50400000, slot_status = ''Tentative'',
             slot_subject = None\<rparr>] 0 86399999 9 17)) 0 9 17 =
     [\<lparr>startTime = ''10:00'', endTime = ''10:30'', status = ''Busy''\<rparr>,
      \<lparr>startTime = ''13:00'', endTime = ''14:00'', status = ''Busy''\<rparr>] \<and>
   cover (map (summaryRange 0)
     [\<lparr>startTime = ''10:00'', endTime = ''10:30'', status = ''Busy''\<rparr>,
      \<lparr>startTime = ''13:00'', endTime = ''14:00'', status = ''Busy''\<rparr>]) =
     busyTime
       [\<lparr>slot_start = 36000000, slot_end = 37800000, slot_status = ''Busy'',
         slot_subject = None\<rparr>,
        \<lparr>slot_start = 46800000, slot_end = 50400000, slot_status = ''Tentative'',
         slot_subject = None\<rparr>]"
proof -
  let ?slots = "[\<lparr>slot_start = 36000000, slot_end = 37800000, slot_status = ''Busy'',
             slot_subject = None\<rparr>,
            \<lparr>slot_start = 46800000, slot_end = 50400000, slot_status = ''Tentative'',
             slot_subject = None\<rparr>]"
  have a: "withinWindow ?slots 0 9 17"
    by (simp add: withinWindow_def setHours_def)
  have b: "sortedDisjoint (map slotRange (filter (\<lambda>s. slot_status s \<noteq> ''Free'') ?slots))"
    by (simp add: sortedDisjoint_def slotRange_def overlaps_def)
  have c: "wholeMinuteSlots ?slots"
    by (simp add: wholeMinuteSlots_def)
  have h: "(0::int) \<le> 9" "(17::int) \<le> 23"
    by simp_all
  have out: "findBusyFromFreeSlots (map asFreeItem (findFreeSlots ?slots 0 86399999 9 17)) 0 9 17 =
     [\<lparr>startTime = ''10:00'', endTime = ''10:30'', status = ''Busy''\<rparr>,
      \<lparr>startTime = ''13:00'', endTime = ''14:00'', status = ''Busy''\<rparr>]"
    by (simp add: findFreeSlots_def findBusyFromFreeSlots_def freeSlotsOf_def setHours_def
        asFreeItem_def formatTime_def two_digit_def digit_def)
  show ?thesis
    using roundtrip_reproduces_busy_coverage [OF a b c h, of 86399999] unfolding out by simp
qed

text \<open>
  Without the whole minutes the claim fails, because \<^verbatim>\<open>formatTime\<close> prints no seconds:
  the busy slot from 10:00:00 to 10:00:30 and the busy slot from 10:00:10 to 10:00:50 both
  come back as 10:00 to 10:00, which covers no time.
\<close>

theorem seconds_lost_roundtrip_counterexample:
  "withinWindow
     [\<lparr>slot_start = 36000000, slot_end = 36030000, slot_status = ''Busy'', slot_subject = None\<rparr>]
     0 9 17 \<and>
   sortedDisjoint
     (map slotRange
        (filter (\<lambda>s. slot_status s \<noteq> ''Free'')
           [\<lparr>slot_start = 36000000, slot_end = 36030000, slot_status = ''Busy'',
             slot_subject = None\<rparr>])) \<and>
   findBusyFromFreeSlots
     (map asFreeItem
        (findFreeSlots
           [\<lparr>slot_start = 36000000, slot_end = 36030000, slot_status = ''Busy'',
             slot_subject = None\<rparr>] 0 86399999 9 17)) 0 9 17 =
     [\<lparr>startTime = ''10:00'', endTime = ''10:00'', status = ''Busy''\<rparr>] \<and>
   findBusyFromFreeSlots
     (map asFreeItem
        (findFreeSlots
           [\<lparr>slot_start = 36010000, slot_end = 36050000, slot_status = ''Busy'',
             slot_subject = None\<rparr>] 0 86399999 9 17)) 0 9 17 =
     [\<lparr>startTime = ''10:00'', endTime = ''10:00'', status = ''Busy''\<rparr>] \<and>
   cover (map (summaryRange 0)
     (findBusyFromFreeSlots
        (map asFreeItem
           (findFreeSlots
              [\<lparr>slot_start = 36000000, slot_end = 36030000, slot_status = ''Busy'',
                slot_subject = None\<rparr>] 0 86399999 9 17)) 0 9 17)) \<noteq>
   busyTime
     [\<lparr>slot_start = 36000000, slot_end = 36030000, slot_status = ''Busy'', slot_subject = None\<rparr>]"
proof -
  have out: "findBusyFromFreeSlots
     (map asFreeItem
        (findFreeSlots
           [\<lparr>slot_start = 36000000, slot_end = 36030000, slot_status = ''Busy'',
             slot_subject = None\<rparr>] 0 86399999 9 17)) 0 9 17 =
     [\<lparr>startTime = ''10:00'', endTime = ''10:00'', status = ''Busy''\<rparr>]"
    by (simp add: findFreeSlots_def findBusyFromFreeSlots_def freeSlotsOf_def setHours_def
        asFreeItem_def formatTime_def two_digit_def digit_def)
  have out': "findBusyFromFreeSlots
     (map asFreeItem
        (findFreeSlots
           [\<lparr>slot_start = 36010000, slot_end = 36050000, slot_status = ''Busy'',
             slot_subject = None\<rparr>] 0 86399999 9 17)) 0 9 17 =
     [\<lparr>startTime = ''10:00'', endTime = ''10:00'', status = ''Busy''\<rparr>]"
    by (simp add: findFreeSlots_def findBusyFromFreeSlots_def freeSlotsOf_def setHours_def
        asFreeItem_def formatTime_def two_digit_def digit_def)
  have "cover (map (summaryRange 0)
      [\<lparr>startTime = ''10:00'', endTime = ''10:00'', status = ''Busy''\<rparr>]) = {}"
    by (simp add: cover_def points_def summaryRange_def)
  moreover have "(36000000::int) \<in> busyTime
     [\<lparr>slot_start = 36000000, slot_end = 36030000, slot_status = ''Busy'', slot_subject = None\<rparr>]"
    by (simp add: busyTime_def)
  ultimately show ?thesis
    unfolding out out'
    by (auto simp: withinWindow_def setHours_def sortedDisjoint_def slotRange_def)
qed

end
